theory Spec2Isabelle
  imports Complex_Main "HOL-Library.Sublist" "HOL-Library.Multiset"
begin

section \<open>Strings\<close>

text \<open>
  Texts and queries are JavaScript strings. They are modelled as \<^typ>\<open>string\<close>, each
  \<^typ>\<open>char\<close> read as one code unit in the range U+0000..U+00FF, so that
  \<open>s.length\<close> is \<^term>\<open>length s\<close>. The string methods the engine calls are written
  out below: \<open>toLowerCase\<close>, \<open>trim\<close>, \<open>split(/\s+/)\<close>, \<open>includes\<close>, \<open>indexOf\<close>
  and \<open>startsWith\<close>.
\<close>

definition toLowerChar :: "char \<Rightarrow> char" where
  "toLowerChar c =
     (let n = (of_char c :: nat)
      in if (65 \<le> n \<and> n \<le> 90) \<or> (192 \<le> n \<and> n \<le> 222 \<and> n \<noteq> 215)
         then char_of (n + 32) else c)"

definition toLowerCase :: "string \<Rightarrow> string" where
  "toLowerCase s = map toLowerChar s"

text \<open>White space as \<open>trim\<close> and the class \<open>\s\<close> know it, within U+0000..U+00FF.\<close>

definition isWhitespace :: "char \<Rightarrow> bool" where
  "isWhitespace c = ((of_char c :: nat) \<in> {9, 10, 11, 12, 13, 32, 160})"

definition trim :: "string \<Rightarrow> string" where
  "trim s = rev (dropWhile isWhitespace (rev (dropWhile isWhitespace s)))"

text \<open>
  \<open>s.split(/\s+/)\<close>: every maximal run of white space is one separator; a separator at
  the start or at the end leaves an empty first or last piece, and the empty string splits
  into one empty piece.
\<close>

function splitWhitespace :: "string \<Rightarrow> string list" where
  "splitWhitespace [] = [[]]"
| "splitWhitespace (c # cs) =
     (if isWhitespace c then [] # splitWhitespace (dropWhile isWhitespace cs)
      else (case splitWhitespace cs of
              [] \<Rightarrow> [[c]]
            | w # ws \<Rightarrow> (c # w) # ws))"
  by pat_completeness auto
termination
  by (relation "measure length") (auto simp: length_dropWhile_le less_Suc_eq_le)

text \<open>\<open>text.includes(word)\<close>: \<open>word\<close> occurs in \<open>text\<close> as a contiguous run.\<close>

fun includesStr :: "string \<Rightarrow> string \<Rightarrow> bool" where
  "includesStr [] w = (w = [])"
| "includesStr (c # cs) w = (prefix w (c # cs) \<or> includesStr cs w)"

text \<open>\<open>text.indexOf(word)\<close>: the first position where \<open>word\<close> starts, \<open>-1\<close> when there is none.\<close>

fun indexOf :: "string \<Rightarrow> string \<Rightarrow> int" where
  "indexOf [] w = (if w = [] then 0 else - 1)"
| "indexOf (c # cs) w =
     (if prefix w (c # cs) then 0
      else (let i = indexOf cs w in if i < 0 then - 1 else i + 1))"

section \<open>Data model\<close>

text \<open>
  The corpus as \<open>JSON.parse\<close> delivers it: \<open>data.collections\<close> is an array of
  collections, each with its \<open>files\<close>, each file with its \<open>fileType\<close> and its \<open>hadiths\<close>.
  A hadith has the fields \<open>id\<close>, \<open>text\<close>, \<open>textLength\<close> and \<open>hasFullDiacritics\<close>.
\<close>

record hadith =
  hadithId :: string
  hadithText :: string
  textLength :: nat
  hasFullDiacritics :: bool

record hadith_file =
  fileType :: string
  hadiths :: "hadith list"

record collection =
  collectionId :: string
  collectionName :: string
  collectionNameArabic :: string
  files :: "hadith_file list"

record hadith_data =
  collections :: "collection list"

section \<open>Search engine (\<open>HadithDataManager\<close>, dataLoader.js)\<close>

text \<open>
  A search hit is the hadith spread into a new object, with the owning collection, the file
  type and the relevance score added. Scores are JavaScript numbers; they are modelled as
  exact reals.
\<close>

record search_hit = hadith +
  hitCollectionId :: string
  hitCollectionName :: string
  hitFileType :: string
  relevanceScore :: real

text \<open>
  The option bag of \<open>searchHadiths\<close>. A field that is absent is \<open>None\<close>. \<open>limit\<close> and
  \<open>offset\<close> are integers of either sign: the engine checks neither (the route schemas do,
  before they call it).
\<close>

record search_options =
  optCollectionId :: "string option"
  optFileType :: "string option"
  optLimit :: "int option"
  optOffset :: "int option"
  optExactMatch :: "bool option"

record pagination =
  total :: nat
  limit :: int
  offset :: int
  hasMore :: bool

record search_result =
  resultHadiths :: "search_hit list"
  resultPagination :: pagination
  resultQuery :: "(string \<times> search_options) option"

datatype error = TypeError | LoadError

text \<open>\<open>fuzzySearch(text, term)\<close>: some piece of the term occurs in the text.\<close>

definition fuzzySearch :: "string \<Rightarrow> string \<Rightarrow> bool" where
  "fuzzySearch txt term = list_ex (\<lambda>word. includesStr txt word) (splitWhitespace term)"

text \<open>
  \<open>calculateRelevance(text, term)\<close> of \<open>HadithDataManager\<close>. When the text contains the whole
  term the score falls from 100 with the position of the first occurrence; otherwise every
  piece of the term that the text contains adds 10. (For an empty text and an empty term
  JavaScript divides 0 by 0; \<open>searchHadiths\<close> never passes an empty term.)
\<close>

definition calculateRelevance :: "string \<Rightarrow> string \<Rightarrow> real" where
  "calculateRelevance txt term =
     (let termLower = toLowerCase term; textLower = toLowerCase txt
      in if includesStr textLower termLower
         then 100 - (real_of_int (indexOf textLower termLower) / real (length txt)) * 50
         else foldl (\<lambda>score word. if includesStr textLower word then score + 10 else score)
                0 (splitWhitespace termLower))"

text \<open>JavaScript truthiness of an optional string: absent and \<open>""\<close> are falsy.\<close>

definition truthy :: "string option \<Rightarrow> bool" where
  "truthy s = (case s of None \<Rightarrow> False | Some v \<Rightarrow> v \<noteq> [])"

text \<open>
  \<open>xs.slice(start, end)\<close>: a negative index counts from the end of the array, every index
  is clamped to the array, and nothing is returned when the end is not after the start.
\<close>

definition jsSlice :: "'a list \<Rightarrow> int \<Rightarrow> int \<Rightarrow> 'a list" where
  "jsSlice xs start stop =
     (let n = int (length xs);
          relativeStart = (if start < 0 then max (n + start) 0 else min start n);
          relativeEnd = (if stop < 0 then max (n + stop) 0 else min stop n)
      in take (nat (relativeEnd - relativeStart)) (drop (nat relativeStart) xs))"

text \<open>The same for a start and an end that are not negative.\<close>

definition slice :: "'a list \<Rightarrow> nat \<Rightarrow> nat \<Rightarrow> 'a list" where
  "slice xs start stop = take (stop - start) (drop start xs)"

text \<open>
  \<open>results.sort((a, b) => b.relevanceScore - a.relevanceScore)\<close>: \<open>Array.prototype.sort\<close>
  is stable; the comparator orders by descending score.
\<close>

definition sortByRelevance :: "search_hit list \<Rightarrow> search_hit list" where
  "sortByRelevance results = sort_key (\<lambda>h. - relevanceScore h) results"

text \<open>The three nested loops of \<open>searchHadiths\<close>, innermost first.\<close>

definition makeHit :: "collection \<Rightarrow> hadith_file \<Rightarrow> string \<Rightarrow> hadith \<Rightarrow> search_hit" where
  "makeHit c f searchTerm h =
     hadith.extend h
       \<lparr> hitCollectionId = collectionId c,
         hitCollectionName = collectionName c,
         hitFileType = fileType f,
         relevanceScore = calculateRelevance (toLowerCase (hadithText h)) searchTerm \<rparr>"

definition hadithMatches :: "bool \<Rightarrow> string \<Rightarrow> hadith \<Rightarrow> bool" where
  "hadithMatches exactMatch searchTerm h =
     (let hadithText = toLowerCase (hadithText h)
      in if exactMatch then includesStr hadithText searchTerm
         else fuzzySearch hadithText searchTerm)"

definition searchFile ::
  "search_options \<Rightarrow> string \<Rightarrow> collection \<Rightarrow> hadith_file \<Rightarrow> search_hit list" where
  "searchFile opts searchTerm c f =
     (if truthy (optFileType opts) \<and> Some (fileType f) \<noteq> optFileType opts then []
      else map (makeHit c f searchTerm)
             (filter (hadithMatches (optExactMatch opts = Some True) searchTerm) (hadiths f)))"

definition searchCollection ::
  "search_options \<Rightarrow> string \<Rightarrow> collection \<Rightarrow> search_hit list" where
  "searchCollection opts searchTerm c =
     (if truthy (optCollectionId opts) \<and> Some (collectionId c) \<noteq> optCollectionId opts then []
      else concat (map (searchFile opts searchTerm c) (files c)))"

definition collectResults :: "hadith_data \<Rightarrow> search_options \<Rightarrow> string \<Rightarrow> search_hit list" where
  "collectResults d opts searchTerm =
     concat (map (searchCollection opts searchTerm) (collections d))"

text \<open>
  \<open>searchHadiths(query, options)\<close>. The first argument is \<open>this.data\<close>, \<open>None\<close> before the
  corpus is loaded: reading \<open>this.data.collections\<close> then throws a \<open>TypeError\<close>. An empty
  or blank query returns before the data is touched.
\<close>

definition searchHadiths ::
  "hadith_data option \<Rightarrow> string \<Rightarrow> search_options \<Rightarrow> error + search_result" where
  "searchHadiths dat query opts =
     (let lim = (case optLimit opts of None \<Rightarrow> 50 | Some l \<Rightarrow> l);
          off = (case optOffset opts of None \<Rightarrow> 0 | Some k \<Rightarrow> k)
      in if query = [] \<or> length (trim query) = 0
         then Inr \<lparr> resultHadiths = [],
                    resultPagination = \<lparr> total = 0, limit = lim, offset = off, hasMore = False \<rparr>,
                    resultQuery = None \<rparr>
         else (case dat of
                 None \<Rightarrow> Inl TypeError
               | Some d \<Rightarrow>
                   (let searchTerm = toLowerCase (trim query);
                        results = sortByRelevance (collectResults d opts searchTerm);
                        tot = length results
                    in Inr \<lparr> resultHadiths = jsSlice results off (off + lim),
                              resultPagination =
                                \<lparr> total = tot, limit = lim, offset = off,
                                  hasMore = (off + lim < int tot) \<rparr>,
                              resultQuery = Some (query, opts) \<rparr>)))"

text \<open>
  Reading the fields of a returned result; a thrown error has no hadiths and no total.
\<close>

definition hadithsOf :: "error + search_result \<Rightarrow> search_hit list" where
  "hadithsOf r = (case r of Inl e \<Rightarrow> [] | Inr res \<Rightarrow> resultHadiths res)"

definition totalOf :: "error + search_result \<Rightarrow> nat" where
  "totalOf r = (case r of Inl e \<Rightarrow> 0 | Inr res \<Rightarrow> total (resultPagination res))"

text \<open>
  \<open>searchHadiths(q, {...options, limit, offset})\<close> on a loaded corpus, for a limit and an
  offset that are not negative.
\<close>

definition searchPage ::
  "hadith_data \<Rightarrow> string \<Rightarrow> search_options \<Rightarrow> nat \<Rightarrow> nat \<Rightarrow> error + search_result" where
  "searchPage d q opts pageLimit pageOffset =
     searchHadiths (Some d) q (opts\<lparr>optLimit := Some (int pageLimit), optOffset := Some (int pageOffset)\<rparr>)"

section \<open>Advanced filter pipeline (POST /advanced, search routes)\<close>

text \<open>
  The request body. \<open>query\<close> is required; an absent \<open>collections\<close> or \<open>fileTypes\<close>
  defaults to the empty array, an absent \<open>limit\<close> to 20 and an absent \<open>offset\<close> to 0.
  The body has passed the schema of the route: \<open>limit\<close> is an integer from 1 to 100 and
  \<open>offset\<close> an integer that is not negative.
  \<open>minLength\<close>, \<open>maxLength\<close> and \<open>hasFullDiacritics\<close> may be \<open>undefined\<close>.
\<close>

record advanced_body =
  advQuery :: string
  advCollections :: "string list option"
  advFileTypes :: "string list option"
  advMinLength :: "nat option"
  advMaxLength :: "nat option"
  advHasFullDiacritics :: "bool option"
  advLimit :: "nat option"
  advOffset :: "nat option"

record filters_applied =
  appliedCollections :: nat
  appliedFileTypes :: nat
  lengthFilter :: bool
  diacriticsFilter :: bool

record advanced_result =
  advHadiths :: "search_hit list"
  advPagination :: pagination
  advResultQuery :: "string \<times> advanced_body"
  advApplied :: filters_applied
  resultsBeforeFiltering :: nat
  resultsAfterFiltering :: nat

text \<open>The options of the basic search the handler starts with: \<open>{limit: 1000, offset: 0}\<close>.\<close>

definition baseSearchOptions :: search_options where
  "baseSearchOptions =
     \<lparr> optCollectionId = None, optFileType = None, optLimit = Some 1000, optOffset = Some 0,
       optExactMatch = None \<rparr>"

text \<open>
  The callback of \<open>results.hadiths.filter\<close>: each test that fails returns \<open>false\<close>, in the
  order of the source.
\<close>

definition passesFilters ::
  "string list \<Rightarrow> string list \<Rightarrow> nat option \<Rightarrow> nat option \<Rightarrow> bool option \<Rightarrow> search_hit \<Rightarrow> bool"
  where
  "passesFilters colls fileTypes minLength maxLength hasDiacritics h =
     (if length colls > 0 \<and> hitCollectionId h \<notin> set colls then False
      else if length fileTypes > 0 \<and> hitFileType h \<notin> set fileTypes then False
      else if (case minLength of None \<Rightarrow> False | Some m \<Rightarrow> textLength h < m) then False
      else if (case maxLength of None \<Rightarrow> False | Some m \<Rightarrow> textLength h > m) then False
      else if (case hasDiacritics of None \<Rightarrow> False | Some b \<Rightarrow> hasFullDiacritics h \<noteq> b)
      then False
      else True)"

definition advancedSearch :: "hadith_data option \<Rightarrow> advanced_body \<Rightarrow> error + advanced_result" where
  "advancedSearch dat body =
     (let colls = (case advCollections body of None \<Rightarrow> [] | Some cs \<Rightarrow> cs);
          fileTypes = (case advFileTypes body of None \<Rightarrow> [] | Some fs \<Rightarrow> fs);
          lmt = (case advLimit body of None \<Rightarrow> 20 | Some l \<Rightarrow> l);
          off = (case advOffset body of None \<Rightarrow> 0 | Some k \<Rightarrow> k)
      in case searchHadiths dat (advQuery body) baseSearchOptions of
           Inl e \<Rightarrow> Inl e
         | Inr results \<Rightarrow>
             (let filteredHadiths =
                    filter (passesFilters colls fileTypes (advMinLength body) (advMaxLength body)
                              (advHasFullDiacritics body))
                      (resultHadiths results);
                  tot = length filteredHadiths
              in Inr \<lparr> advHadiths = slice filteredHadiths off (off + lmt),
                        advPagination =
                          \<lparr> total = tot, limit = int lmt, offset = int off,
                            hasMore = (off + lmt < tot) \<rparr>,
                        advResultQuery = (advQuery body, body),
                        advApplied =
                          \<lparr> appliedCollections = length colls,
                            appliedFileTypes = length fileTypes,
                            lengthFilter = (advMinLength body \<noteq> None \<or> advMaxLength body \<noteq> None),
                            diacriticsFilter = (advHasFullDiacritics body \<noteq> None) \<rparr>,
                        resultsBeforeFiltering = length (resultHadiths results),
                        resultsAfterFiltering = tot \<rparr>))"

text \<open>Reading the fields of the handler's reply; a thrown error has none.\<close>

definition advHadithsOf :: "error + advanced_result \<Rightarrow> search_hit list" where
  "advHadithsOf r = (case r of Inl e \<Rightarrow> [] | Inr res \<Rightarrow> advHadiths res)"

definition advTotalOf :: "error + advanced_result \<Rightarrow> nat" where
  "advTotalOf r = (case r of Inl e \<Rightarrow> 0 | Inr res \<Rightarrow> total (advPagination res))"

definition beforeFilteringOf :: "error + advanced_result \<Rightarrow> nat" where
  "beforeFilteringOf r = (case r of Inl e \<Rightarrow> 0 | Inr res \<Rightarrow> resultsBeforeFiltering res)"

text \<open>A body with a query, a page and no filter in any dimension.\<close>

definition unfilteredBody :: "string \<Rightarrow> nat \<Rightarrow> nat \<Rightarrow> advanced_body" where
  "unfilteredBody q pageLimit pageOffset =
     \<lparr> advQuery = q, advCollections = Some [], advFileTypes = Some [],
       advMinLength = None, advMaxLength = None, advHasFullDiacritics = None,
       advLimit = Some pageLimit, advOffset = Some pageOffset \<rparr>"

section \<open>Corpus loader (\<open>HadithDataLoader\<close>, enhanced-data-loader.js)\<close>

text \<open>
  The loader reads the file system. A file that \<open>existsSync\<close> does not find is absent
  (\<open>None\<close>); a file that exists either makes \<open>readFileSync\<close> or \<open>JSON.parse\<close> throw
  (\<open>Unreadable\<close>) or parses to a document (\<open>Parsed\<close>). Documents are typed: a manifest
  with its \<open>files\<close> entries, a collection file wrapping one \<open>collection\<close>, the unified
  file with its \<open>collections\<close>. Of each manifest entry the loader reads \<open>filename\<close>,
  \<open>collectionName\<close> (for the log) and \<open>hadithCount\<close>.
\<close>

datatype 'a file_content = Unreadable | Parsed 'a

record manifest_entry =
  entryCollectionId :: string
  entryCollectionName :: string
  filename :: string
  hadithCount :: nat

record manifest =
  totalCollections :: nat
  manifestFiles :: "manifest_entry list"

record collection_file =
  wrappedCollection :: collection

record file_system =
  collectionsDirExists :: bool
  manifestFile :: "manifest file_content option"
  collectionFiles :: "string \<rightharpoonup> collection_file file_content"
  unifiedFile :: "hadith_data file_content option"

text \<open>
  The loader object. Of \<open>stats\<close> the two counts are kept; the load time and the memory
  usage are readings of the clock and of the heap.
\<close>

datatype loading_method = SplitFiles | UnifiedFile

record loader_stats =
  collectionsCount :: nat
  hadithsCount :: nat

record loader =
  loaderData :: "hadith_data option"
  isLoaded :: bool
  loadingMethod :: "loading_method option"
  stats :: loader_stats

definition newLoader :: loader where
  "newLoader =
     \<lparr> loaderData = None, isLoaded = False, loadingMethod = None,
       stats = \<lparr> collectionsCount = 0, hadithsCount = 0 \<rparr> \<rparr>"

text \<open>
  The loop of \<open>loadFromSplitFiles\<close> over \<open>manifest.files\<close>, with its two accumulators. A
  listed file that does not exist is skipped with a warning; a file that cannot be read or
  parsed throws, and the loop ends without a result.
\<close>

fun loadCollectionFiles ::
  "file_system \<Rightarrow> manifest_entry list \<Rightarrow> collection list \<Rightarrow> nat \<Rightarrow> (collection list \<times> nat) option"
  where
  "loadCollectionFiles fs [] colls totalHadiths = Some (colls, totalHadiths)"
| "loadCollectionFiles fs (fileInfo # rest) colls totalHadiths =
     (case collectionFiles fs (filename fileInfo) of
        None \<Rightarrow> loadCollectionFiles fs rest colls totalHadiths
      | Some Unreadable \<Rightarrow> None
      | Some (Parsed collectionData) \<Rightarrow>
          loadCollectionFiles fs rest (colls @ [wrappedCollection collectionData])
            (totalHadiths + hadithCount fileInfo))"

definition loadFromSplitFiles :: "file_system \<Rightarrow> loader \<Rightarrow> bool \<times> loader" where
  "loadFromSplitFiles fs ld =
     (if \<not> collectionsDirExists fs \<or> manifestFile fs = None then (False, ld)
      else (case manifestFile fs of
              None \<Rightarrow> (False, ld)
            | Some Unreadable \<Rightarrow> (False, ld)
            | Some (Parsed mf) \<Rightarrow>
                (case loadCollectionFiles fs (manifestFiles mf) [] 0 of
                   None \<Rightarrow> (False, ld)
                 | Some (colls, totalHadiths) \<Rightarrow>
                     (True,
                      ld\<lparr> loaderData := Some \<lparr> collections = colls \<rparr>,
                          stats := \<lparr> collectionsCount = length colls,
                                     hadithsCount = totalHadiths \<rparr> \<rparr>))))"

text \<open>The two nested \<open>forEach\<close> loops that count the hadiths of the unified file.\<close>

definition countHadiths :: "collection list \<Rightarrow> nat" where
  "countHadiths colls =
     foldl (\<lambda>totalHadiths c.
              foldl (\<lambda>n f. n + length (hadiths f)) totalHadiths (files c))
       0 colls"

definition loadFromUnifiedFile :: "file_system \<Rightarrow> loader \<Rightarrow> bool \<times> loader" where
  "loadFromUnifiedFile fs ld =
     (case unifiedFile fs of
        None \<Rightarrow> (False, ld)
      | Some Unreadable \<Rightarrow> (False, ld)
      | Some (Parsed d) \<Rightarrow>
          (True,
           ld\<lparr> loaderData := Some d,
               stats := \<lparr> collectionsCount = length (collections d),
                          hadithsCount = countHadiths (collections d) \<rparr> \<rparr>))"

text \<open>
  \<open>loadData\<close>: the split files first, the unified file only when they did not load, an
  error when neither did. On success the loader returns \<open>this.data\<close>.
\<close>

definition loadData :: "file_system \<Rightarrow> loader \<Rightarrow> error + (hadith_data option \<times> loader)" where
  "loadData fs ld =
     (let (splitOk, ld1) = loadFromSplitFiles fs ld
      in if splitOk
         then Inr (loaderData ld1,
                   ld1\<lparr> loadingMethod := Some SplitFiles, isLoaded := True \<rparr>)
         else (let (unifiedOk, ld2) = loadFromUnifiedFile fs ld1
               in if unifiedOk
                  then Inr (loaderData ld2,
                            ld2\<lparr> loadingMethod := Some UnifiedFile, isLoaded := True \<rparr>)
                  else Inl LoadError))"

section \<open>The splitter (split-data script)\<close>

text \<open>
  The script that writes the collection files and the manifest from the unified data: one
  file \<open><collectionId>.json\<close> per collection, and a manifest entry with the number of
  hadiths of that collection. A document that is written is read back as it was written.
\<close>

definition collectionHadithCount :: "collection \<Rightarrow> nat" where
  "collectionHadithCount c = foldl (\<lambda>n f. n + length (hadiths f)) 0 (files c)"

definition manifestEntryOf :: "collection \<Rightarrow> manifest_entry" where
  "manifestEntryOf c =
     \<lparr> entryCollectionId = collectionId c,
       entryCollectionName = collectionName c,
       filename = collectionId c @ ''.json'',
       hadithCount = collectionHadithCount c \<rparr>"

definition writeCollectionFile :: "file_system \<Rightarrow> collection \<Rightarrow> file_system" where
  "writeCollectionFile fs c =
     fs\<lparr> collectionFiles :=
           (collectionFiles fs)(collectionId c @ ''.json'' \<mapsto> Parsed \<lparr> wrappedCollection = c \<rparr>) \<rparr>"

definition splitData :: "hadith_data \<Rightarrow> file_system \<Rightarrow> file_system" where
  "splitData d fs =
     (let fs1 = foldl writeCollectionFile (fs\<lparr> collectionsDirExists := True \<rparr>) (collections d)
      in fs1\<lparr> manifestFile :=
                Some (Parsed \<lparr> totalCollections = length (collections d),
                               manifestFiles = map manifestEntryOf (collections d) \<rparr>) \<rparr>)"

section \<open>Collection index (\<open>HadithDataManager\<close>, dataLoader.js)\<close>

text \<open>
  The manager holds the loaded data and a \<open>Map\<close> from collection identifier to collection
  object. The map stores references: the reference to the object \<open>data.collections[i]\<close> is
  modelled by the position \<open>i\<close>, so that two references are the same object exactly when
  they are the same position. (The second map, \<open>searchIndex\<close>, is read only for its size
  and is left out.)
\<close>

type_synonym collection_ref = nat

record manager =
  dataLoader :: loader
  managerData :: "hadith_data option"
  loaded :: bool
  collectionIndex :: "string \<rightharpoonup> collection_ref"

definition newManager :: manager where
  "newManager =
     \<lparr> dataLoader = newLoader, managerData = None, loaded = False,
       collectionIndex = Map.empty \<rparr>"

text \<open>
  \<open>buildCollectionIndex\<close>: clear the map, then one pass over \<open>this.data.collections\<close>,
  setting each identifier to the object at hand. The loop carries the position of the
  object it has reached.
\<close>

fun indexLoop ::
  "collection list \<Rightarrow> collection_ref \<Rightarrow> (string \<rightharpoonup> collection_ref) \<Rightarrow> (string \<rightharpoonup> collection_ref)"
  where
  "indexLoop [] i idx = idx"
| "indexLoop (c # cs) i idx = indexLoop cs (Suc i) (idx(collectionId c \<mapsto> i))"

definition indexCollections ::
  "collection list \<Rightarrow> (string \<rightharpoonup> collection_ref)" where
  "indexCollections colls = indexLoop colls 0 Map.empty"

definition buildCollectionIndex :: "manager \<Rightarrow> error + manager" where
  "buildCollectionIndex m =
     (case managerData m of
        None \<Rightarrow> Inl TypeError
      | Some d \<Rightarrow> Inr (m\<lparr> collectionIndex := indexCollections (collections d) \<rparr>))"

text \<open>\<open>getCollection(collectionId)\<close>: the stored reference, or \<open>null\<close> (\<open>None\<close>).\<close>

definition getCollection :: "manager \<Rightarrow> string \<Rightarrow> collection_ref option" where
  "getCollection m cid = collectionIndex m cid"

text \<open>The object a reference of the index points to.\<close>

definition collectionAt :: "manager \<Rightarrow> collection_ref \<Rightarrow> collection option" where
  "collectionAt m r =
     (case managerData m of
        None \<Rightarrow> None
      | Some d \<Rightarrow> if r < length (collections d) then Some (collections d ! r) else None)"

text \<open>
  \<open>loadData\<close> of the manager: the loader's data, then the index, then \<open>loaded = true\<close>.
  Any error is thrown again as a loading failure.
\<close>

definition managerLoadData :: "file_system \<Rightarrow> manager \<Rightarrow> error + manager" where
  "managerLoadData fs m =
     (case loadData fs (dataLoader m) of
        Inl e \<Rightarrow> Inl LoadError
      | Inr (d, ld) \<Rightarrow>
          (case buildCollectionIndex (m\<lparr> dataLoader := ld, managerData := d \<rparr>) of
             Inl e \<Rightarrow> Inl LoadError
           | Inr m1 \<Rightarrow> Inr (m1\<lparr> loaded := True \<rparr>)))"

section \<open>Statistics aggregator (GET /distribution, stats routes)\<close>

text \<open>
  The collections the handler looks at: the one collection \<open>getCollection\<close> returns for a
  given identifier (possibly \<open>null\<close>), or all of \<open>data.collections\<close>.
\<close>

definition scopedCollections :: "manager \<Rightarrow> string option \<Rightarrow> error + collection option list" where
  "scopedCollections m cid =
     (if truthy cid
      then Inr [case getCollection m (case cid of None \<Rightarrow> [] | Some c \<Rightarrow> c) of
                  None \<Rightarrow> None
                | Some r \<Rightarrow> collectionAt m r]
      else (case managerData m of
              None \<Rightarrow> Inl TypeError
            | Some d \<Rightarrow> Inr (map Some (collections d))))"

text \<open>The loop that gathers \<open>textLength\<close> of every hadith in scope.\<close>

definition collectLengths :: "collection option list \<Rightarrow> string option \<Rightarrow> nat list" where
  "collectLengths colls ft =
     concat (map (\<lambda>co. case co of
                          None \<Rightarrow> []
                        | Some c \<Rightarrow>
                            concat (map (\<lambda>f. if truthy ft \<and> Some (fileType f) \<noteq> ft then []
                                             else map textLength (hadiths f))
                                     (files c)))
               colls)"

text \<open>
  \<open>xs[i]\<close>, \<open>undefined\<close> out of range. \<open>Math.floor((p / 100) * total)\<close> is computed by
  JavaScript in double precision; here the product is exact.
\<close>

definition elementAt :: "'a list \<Rightarrow> nat \<Rightarrow> 'a option" where
  "elementAt xs i = (if i < length xs then Some (xs ! i) else None)"

definition percentileIndex :: "nat \<Rightarrow> nat \<Rightarrow> nat" where
  "percentileIndex p n = nat \<lfloor>(real p / 100) * real n\<rfloor>"

definition percentileLadder :: "nat list" where
  "percentileLadder = [10, 25, 50, 75, 90, 95, 99]"

definition percentilesOf :: "nat list \<Rightarrow> (nat \<times> nat option) list" where
  "percentilesOf sortedLengths =
     map (\<lambda>p. (p, elementAt sortedLengths (percentileIndex p (length sortedLengths))))
       percentileLadder"

record length_range =
  rangeCount :: nat
  rangePercentage :: real

record length_statistics =
  statTotal :: nat
  statMean :: int
  statMedian :: "nat option"
  statMin :: "nat option"
  statMax :: "nat option"
  standardDeviation :: int

record distribution =
  ranges :: "(string \<times> length_range) list"
  statistics :: length_statistics
  percentiles :: "(nat \<times> nat option) list"

text \<open>
  The computation on the gathered lengths: \<open>None\<close> is the reply without data; otherwise
  the lengths are sorted in ascending order (\<open>sort((a, b) => a - b)\<close>) and the ranges, the
  statistics and the percentiles are read off the sorted array.
\<close>

definition rangeCounts :: "nat list \<Rightarrow> (string \<times> nat) list" where
  "rangeCounts ls =
     [ (''0-99'', length (filter (\<lambda>l. l < 100) ls)),
       (''100-299'', length (filter (\<lambda>l. l \<ge> 100 \<and> l < 300) ls)),
       (''300-599'', length (filter (\<lambda>l. l \<ge> 300 \<and> l < 600) ls)),
       (''600-999'', length (filter (\<lambda>l. l \<ge> 600 \<and> l < 1000) ls)),
       (''1000+'', length (filter (\<lambda>l. l \<ge> 1000) ls)) ]"

definition lengthDistribution :: "nat list \<Rightarrow> distribution option" where
  "lengthDistribution allLengths =
     (if length allLengths = 0 then None
      else (let sortedLengths = sort allLengths;
                tot = length sortedLengths;
                total_sum = foldl (\<lambda>a b. a + b) 0 sortedLengths;
                mean = round (real total_sum / real tot)
            in Some
                 \<lparr> ranges =
                     map (\<lambda>(range, n).
                            (range,
                             \<lparr> rangeCount = n,
                               rangePercentage =
                                 real_of_int (round ((real n / real tot) * 100 * 100)) / 100 \<rparr>))
                       (rangeCounts sortedLengths),
                   statistics =
                     \<lparr> statTotal = tot,
                       statMean = mean,
                       statMedian = elementAt sortedLengths (tot div 2),
                       statMin = elementAt sortedLengths 0,
                       statMax = elementAt sortedLengths (tot - 1),
                       standardDeviation =
                         round (sqrt (real_of_int
                                        (foldl (\<lambda>acc val. acc + (int val - mean)\<^sup>2) 0 sortedLengths)
                                      / real tot)) \<rparr>,
                   percentiles = percentilesOf sortedLengths \<rparr>))"

definition distributionHandler ::
  "manager \<Rightarrow> string option \<Rightarrow> string option \<Rightarrow> error + distribution option" where
  "distributionHandler m cid ft =
     (case scopedCollections m cid of
        Inl e \<Rightarrow> Inl e
      | Inr colls \<Rightarrow> Inr (lengthDistribution (collectLengths colls ft)))"

section \<open>The relevance score of \<open>HadithDataLoader\<close> (enhanced-data-loader.js)\<close>

text \<open>
  The second \<open>calculateRelevance\<close> of the repository, the formula of occurrences, prefix,
  whole words and length. It builds regular expressions from the search term; the term is
  taken literally here, as it is for a term without metacharacters. A global match finds
  the occurrences from left to right without overlap; \<open>\b\<close> is the border between a word
  character (\<open>[A-Za-z0-9_]\<close>) and anything else, the two ends of the text included.
\<close>

fun countMatches :: "string \<Rightarrow> nat \<Rightarrow> string \<Rightarrow> nat" where
  "countMatches pat k [] = (if pat = [] then 1 else 0)"
| "countMatches pat k (c # cs) =
     (if k > 0 then countMatches pat (k - 1) cs
      else if prefix pat (c # cs) then 1 + countMatches pat (length pat - 1) cs
      else countMatches pat 0 cs)"

definition isWordChar :: "char option \<Rightarrow> bool" where
  "isWordChar co =
     (case co of
        None \<Rightarrow> False
      | Some c \<Rightarrow>
          (let n = (of_char c :: nat)
           in (48 \<le> n \<and> n \<le> 57) \<or> (65 \<le> n \<and> n \<le> 90) \<or> n = 95 \<or> (97 \<le> n \<and> n \<le> 122)))"

definition wordBoundary :: "char option \<Rightarrow> char option \<Rightarrow> bool" where
  "wordBoundary before after = (isWordChar before \<noteq> isWordChar after)"

fun countWordMatches :: "string \<Rightarrow> nat \<Rightarrow> char option \<Rightarrow> string \<Rightarrow> nat" where
  "countWordMatches pat k before [] = 0"
| "countWordMatches pat k before (c # cs) =
     (if k > 0 then countWordMatches pat (k - 1) (Some c) cs
      else if pat \<noteq> [] \<and> prefix pat (c # cs) \<and> wordBoundary before (Some (hd pat))
              \<and> wordBoundary (Some (last pat)) (elementAt (c # cs) (length pat))
           then 1 + countWordMatches pat (length pat - 1) (Some c) cs
      else countWordMatches pat 0 (Some c) cs)"

definition loaderCalculateRelevance :: "string \<Rightarrow> string \<Rightarrow> real" where
  "loaderCalculateRelevance txt searchTerm =
     (if txt = [] \<or> searchTerm = [] then 0
      else (let lowerText = toLowerCase txt;
                lowerSearch = toLowerCase searchTerm;
                matches = countMatches lowerSearch 0 lowerText;
                score = real (matches * 100);
                score1 = (if prefix lowerSearch lowerText then score + 50 else score);
                exactMatches = countWordMatches lowerSearch 0 None lowerText;
                score2 = score1 + real (exactMatches * 25);
                score3 = score2 / sqrt (real (length txt) / 100)
            in real_of_int (round score3)))"

section \<open>Notions for stating the loader's properties\<close>

text \<open>The collection a manifest entry contributes: that of its file, when the file exists and parses.\<close>

definition shardOf :: "file_system \<Rightarrow> manifest_entry \<Rightarrow> collection option" where
  "shardOf fs e =
     (case collectionFiles fs (filename e) of
        Some (Parsed cf) \<Rightarrow> Some (wrappedCollection cf)
      | _ \<Rightarrow> None)"

text \<open>The collections of the listed files that exist, in the order of the manifest.\<close>

definition loadedShards :: "file_system \<Rightarrow> manifest \<Rightarrow> collection list" where
  "loadedShards fs mf = List.map_filter (shardOf fs) (manifestFiles mf)"

text \<open>The sum of the \<open>hadithCount\<close> the manifest declares for its files that exist.\<close>

definition declaredTotal :: "file_system \<Rightarrow> manifest \<Rightarrow> nat" where
  "declaredTotal fs mf =
     sum_list (map hadithCount
       (filter (\<lambda>e. collectionFiles fs (filename e) \<noteq> None) (manifestFiles mf)))"

text \<open>
  The sum, over all collections and all of their files, of the actual number of hadiths in
  the file.
\<close>

definition actualTotal :: "collection list \<Rightarrow> nat" where
  "actualTotal colls =
     sum_list (map (\<lambda>c. sum_list (map (\<lambda>f. length (hadiths f)) (files c))) colls)"

text \<open>Some listed file exists and cannot be read or parsed.\<close>

definition someUnreadable :: "file_system \<Rightarrow> manifest \<Rightarrow> bool" where
  "someUnreadable fs mf =
     list_ex (\<lambda>e. collectionFiles fs (filename e) = Some Unreadable) (manifestFiles mf)"

text \<open>
  Every listed file that loads holds as many hadiths as its manifest entry declares.
\<close>

definition manifestConsistent :: "file_system \<Rightarrow> manifest \<Rightarrow> bool" where
  "manifestConsistent fs mf =
     list_all (\<lambda>e. case shardOf fs e of
                      None \<Rightarrow> True
                    | Some c \<Rightarrow> hadithCount e = actualTotal [c])
       (manifestFiles mf)"


section \<open>A small corpus\<close>

text \<open>
  Two collections: \<open>a\<close> with a regular and a diacritized file of three hadiths each, \<open>b\<close>
  with one regular file of two hadiths.
\<close>

definition mkHadith :: "string \<Rightarrow> string \<Rightarrow> hadith" where
  "mkHadith i t =
     \<lparr> hadithId = i, hadithText = t, textLength = length t, hasFullDiacritics = False \<rparr>"

definition exampleData :: hadith_data where
  "exampleData =
     \<lparr> collections =
         [ \<lparr> collectionId = ''a'', collectionName = ''A'', collectionNameArabic = ''A'',
             files =
               [ \<lparr> fileType = ''regular'',
                   hadiths = [mkHadith ''1'' ''xx ab'', mkHadith ''2'' ''Ab cd'',
                              mkHadith ''3'' ''cd''] \<rparr>,
                 \<lparr> fileType = ''mushakkala_mufassala'',
                   hadiths = [mkHadith ''1'' ''xx ab'', mkHadith ''2'' ''ab cd'',
                              mkHadith ''3'' ''cd''] \<rparr> ] \<rparr>,
           \<lparr> collectionId = ''b'', collectionName = ''B'', collectionNameArabic = ''B'',
             files =
               [ \<lparr> fileType = ''regular'',
                   hadiths = [mkHadith ''1'' ''ab'', mkHadith ''2'' ''zz''] \<rparr> ] \<rparr> ] \<rparr>"

definition noOptions :: search_options where
  "noOptions =
     \<lparr> optCollectionId = None, optFileType = None, optLimit = None, optOffset = None,
       optExactMatch = None \<rparr>"

text \<open>
  A corpus of one file with 1001 hadiths, each of them the text \<open>a\<close>, with the identifiers
  \<open>i\<close>, \<open>ii\<close>, \<open>iii\<close> and so on.
\<close>

definition largeHadith :: "nat \<Rightarrow> hadith" where
  "largeHadith k = mkHadith (replicate (Suc k) CHR ''i'') ''a''"

definition largeData :: hadith_data where
  "largeData =
     \<lparr> collections =
         [ \<lparr> collectionId = ''a'', collectionName = ''A'', collectionNameArabic = ''A'',
             files = [ \<lparr> fileType = ''regular'',
                         hadiths = map largeHadith [0..<1001] \<rparr> ] \<rparr> ] \<rparr>"

text \<open>A corpus of a single hadith with the text \<open>abcd\<close>.\<close>

definition tinyData :: hadith_data where
  "tinyData =
     \<lparr> collections =
         [ \<lparr> collectionId = ''a'', collectionName = ''A'', collectionNameArabic = ''A'',
             files = [ \<lparr> fileType = ''regular'', hadiths = [mkHadith ''1'' ''abcd''] \<rparr> ] \<rparr> ] \<rparr>"

section \<open>Example file systems\<close>

text \<open>File systems: one that holds only the unified file, and an empty one.\<close>

definition unifiedOnly :: "hadith_data \<Rightarrow> file_system" where
  "unifiedOnly d =
     \<lparr> collectionsDirExists = False, manifestFile = None, collectionFiles = Map.empty,
       unifiedFile = Some (Parsed d) \<rparr>"

definition emptyFileSystem :: file_system where
  "emptyFileSystem =
     \<lparr> collectionsDirExists = False, manifestFile = None, collectionFiles = Map.empty,
       unifiedFile = None \<rparr>"

text \<open>The two collections of the small corpus, and a manifest listing a file for each.\<close>

definition collectionA :: collection where
  "collectionA = hd (collections exampleData)"

definition collectionB :: collection where
  "collectionB = hd (tl (collections exampleData))"

definition exampleManifest :: "nat \<Rightarrow> manifest" where
  "exampleManifest declaredA =
     \<lparr> totalCollections = 2,
       manifestFiles =
         [ \<lparr> entryCollectionId = ''a'', entryCollectionName = ''A'', filename = ''a.json'',
             hadithCount = declaredA \<rparr>,
           \<lparr> entryCollectionId = ''b'', entryCollectionName = ''B'', filename = ''b.json'',
             hadithCount = 2 \<rparr> ] \<rparr>"

text \<open>
  Three sets of split files: \<open>b.json\<close> is listed and missing; both files exist and the
  manifest declares 9 hadiths for \<open>a.json\<close>, which holds 6; \<open>b.json\<close> exists and cannot be
  parsed.
\<close>

definition fsMissing :: file_system where
  "fsMissing =
     \<lparr> collectionsDirExists = True,
       manifestFile = Some (Parsed (exampleManifest 6)),
       collectionFiles = [''a.json'' \<mapsto> Parsed \<lparr> wrappedCollection = collectionA \<rparr>],
       unifiedFile = Some (Parsed exampleData) \<rparr>"

definition fsMiscount :: file_system where
  "fsMiscount =
     \<lparr> collectionsDirExists = True,
       manifestFile = Some (Parsed (exampleManifest 9)),
       collectionFiles = [''a.json'' \<mapsto> Parsed \<lparr> wrappedCollection = collectionA \<rparr>,
                          ''b.json'' \<mapsto> Parsed \<lparr> wrappedCollection = collectionB \<rparr>],
       unifiedFile = Some (Parsed exampleData) \<rparr>"

definition fsUnreadable :: file_system where
  "fsUnreadable =
     \<lparr> collectionsDirExists = True,
       manifestFile = Some (Parsed (exampleManifest 6)),
       collectionFiles = [''a.json'' \<mapsto> Parsed \<lparr> wrappedCollection = collectionA \<rparr>,
                          ''b.json'' \<mapsto> Unreadable],
       unifiedFile = Some (Parsed exampleData) \<rparr>"

text \<open>The manager once the small corpus is loaded.\<close>

definition exampleManager :: manager where
  "exampleManager =
     newManager\<lparr> managerData := Some exampleData,
                 collectionIndex := indexCollections (collections exampleData),
                 loaded := True \<rparr>"

text \<open>A unified file in which two collections carry the same identifier.\<close>

definition dupData :: hadith_data where
  "dupData =
     \<lparr> collections =
         [ \<lparr> collectionId = ''a'', collectionName = ''First'', collectionNameArabic = ''A'',
             files = [ \<lparr> fileType = ''regular'', hadiths = [mkHadith ''1'' ''ab''] \<rparr> ] \<rparr>,
           \<lparr> collectionId = ''a'', collectionName = ''Second'', collectionNameArabic = ''A'',
             files = [ \<lparr> fileType = ''regular'', hadiths = [mkHadith ''1'' ''cd''] \<rparr> ] \<rparr> ] \<rparr>"

section \<open>Properties of the string functions\<close>

lemma includes_sublist: "includesStr t w = sublist w t"
  by (induction t) (auto simp: sublist_Cons_right)

lemma splitWhitespace_not_Nil: "splitWhitespace s \<noteq> []"
  by (induction s rule: splitWhitespace.induct) (auto split: list.splits)

lemma hd_splitWhitespace_prefix: "prefix (hd (splitWhitespace s)) s"
  by (induction s rule: splitWhitespace.induct) (auto split: list.splits)

text \<open>Every piece of a split string occurs in the string.\<close>

lemma splitWhitespace_sublist: "w \<in> set (splitWhitespace s) \<Longrightarrow> sublist w s"
proof (induction s arbitrary: w rule: splitWhitespace.induct)
  case 1
  then show ?case by simp
next
  case (2 c cs)
  show ?case
  proof (cases "isWhitespace c")
    case True
    with 2 have "w = [] \<or> w \<in> set (splitWhitespace (dropWhile isWhitespace cs))" by auto
    then show ?thesis
    proof
      assume "w = []" then show ?thesis by simp
    next
      assume "w \<in> set (splitWhitespace (dropWhile isWhitespace cs))"
      with 2 True have "sublist w (dropWhile isWhitespace cs)" by blast
      then have "sublist w cs" using sublist_dropWhile sublist_order.order_trans by blast
      then show ?thesis by (simp add: sublist_Cons_right)
    qed
  next
    case False
    obtain v vs where vs: "splitWhitespace cs = v # vs"
      using splitWhitespace_not_Nil by (cases "splitWhitespace cs") auto
    with 2 False have "w = c # v \<or> w \<in> set vs" by auto
    then show ?thesis
    proof
      assume w: "w = c # v"
      have "prefix v cs" using hd_splitWhitespace_prefix [of cs] vs by simp
      then show ?thesis using w by (simp add: sublist_Cons_right)
    next
      assume "w \<in> set vs"
      then have "w \<in> set (splitWhitespace cs)" using vs by simp
      with 2 False have "sublist w cs" by blast
      then show ?thesis by (simp add: sublist_Cons_right)
    qed
  qed
qed

lemma includes_imp_fuzzySearch: "includesStr t term \<Longrightarrow> fuzzySearch t term"
proof -
  assume a: "includesStr t term"
  obtain v vs where vs: "splitWhitespace term = v # vs"
    using splitWhitespace_not_Nil by (cases "splitWhitespace term") auto
  then have "sublist v term" using splitWhitespace_sublist [of v "term"] by simp
  moreover have "sublist term t" using a by (simp add: includes_sublist)
  ultimately have "sublist v t" using sublist_order.order_trans by blast
  then show ?thesis using vs by (simp add: fuzzySearch_def includes_sublist)
qed

section \<open>Pagination\<close>

lemma concat_pages: "0 < L \<Longrightarrow> n * L \<ge> length xs \<Longrightarrow>
   concat (map (\<lambda>k. take L (drop (k * L) xs)) [0..<n]) = xs"
proof (induction n arbitrary: xs)
  case 0
  then show ?case by simp
next
  case (Suc n)
  have "concat (map (\<lambda>k. take L (drop (k * L) xs)) [0..<Suc n])
      = take L xs @ concat (map (\<lambda>k. take L (drop (k * L) (drop L xs))) [0..<n])"
    by (simp add: upt_conv_Cons map_Suc_upt [symmetric] comp_def add.commute del: upt_Suc)
  also have "concat (map (\<lambda>k. take L (drop (k * L) (drop L xs))) [0..<n]) = drop L xs"
    using Suc.prems by (intro Suc.IH) auto
  finally show ?case by simp
qed

lemma concat_pages_ceil: "0 < L \<Longrightarrow>
   concat (map (\<lambda>k. slice xs (k * L) (k * L + L)) [0..<(length xs + L - 1) div L]) = xs"
proof -
  assume L: "0 < L"
  have "length xs \<le> ((length xs + L - 1) div L) * L"
  proof -
    have "length xs + L - 1 < ((length xs + L - 1) div L) * L + L"
      using L by (metis add.commute div_mult_mod_eq mod_less_divisor add_less_cancel_left mult.commute)
    then show ?thesis using L by linarith
  qed
  then show ?thesis using concat_pages [OF L] by (simp add: slice_def)
qed

text \<open>\<open>slice\<close> of JavaScript on indices that are not negative, and what any slice holds.\<close>

lemma jsSlice_nat: "jsSlice xs (int a) (int b) = slice xs a b"
proof (cases "a < length xs")
  case True
  then have "jsSlice xs (int a) (int b) = take (min b (length xs) - a) (drop a xs)"
    by (simp add: jsSlice_def Let_def min_def nat_diff_distrib')
  also have "\<dots> = take (b - a) (drop a xs)"
    by (cases "b \<le> length xs") (simp_all add: min_def)
  finally show ?thesis by (simp add: slice_def)
next
  case False
  then show ?thesis by (simp add: jsSlice_def slice_def Let_def min_def)
qed

lemma jsSlice_page: "jsSlice xs (int a) (int a + int b) = slice xs a (a + b)"
  using jsSlice_nat [of xs a "a + b"] by simp

lemma set_jsSlice_subset: "set (jsSlice xs a b) \<subseteq> set xs"
  unfolding jsSlice_def Let_def using set_take_subset set_drop_subset by fast

lemma jsSlice_Nil: "jsSlice [] a b = []"
  by (simp add: jsSlice_def Let_def)

text \<open>\<open>searchHadiths\<close> on a loaded corpus, for a query that is not blank and for a blank one.\<close>

lemma searchHadiths_loaded:
  "trim q \<noteq> [] \<Longrightarrow>
   searchHadiths (Some d) q opts =
     (let lmt = (case optLimit opts of None \<Rightarrow> 50 | Some l \<Rightarrow> l);
          off = (case optOffset opts of None \<Rightarrow> 0 | Some k \<Rightarrow> k);
          results = sortByRelevance (collectResults d opts (toLowerCase (trim q)))
      in Inr \<lparr> resultHadiths = jsSlice results off (off + lmt),
                 resultPagination =
                   \<lparr> total = length results, limit = lmt, offset = off,
                     hasMore = (off + lmt < int (length results)) \<rparr>,
                 resultQuery = Some (q, opts) \<rparr>)"
  by (auto simp: searchHadiths_def Let_def trim_def)

lemma searchHadiths_blank:
  "trim q = [] \<Longrightarrow>
   searchHadiths dat q opts =
     Inr \<lparr> resultHadiths = [],
           resultPagination =
             \<lparr> total = 0, limit = (case optLimit opts of None \<Rightarrow> 50 | Some l \<Rightarrow> l),
               offset = (case optOffset opts of None \<Rightarrow> 0 | Some k \<Rightarrow> k), hasMore = False \<rparr>,
           resultQuery = None \<rparr>"
  by (auto simp: searchHadiths_def Let_def trim_def)

lemma searchFile_page_opts:
  "searchFile (opts\<lparr>optLimit := a, optOffset := b\<rparr>) t c = searchFile opts t c"
  by (rule ext) (simp add: searchFile_def)

lemma searchCollection_page_opts:
  "searchCollection (opts\<lparr>optLimit := a, optOffset := b\<rparr>) t = searchCollection opts t"
  by (rule ext) (simp add: searchCollection_def searchFile_page_opts)

lemma collectResults_page_opts:
  "collectResults d (opts\<lparr>optLimit := a, optOffset := b\<rparr>) t = collectResults d opts t"
  by (simp add: collectResults_def searchCollection_page_opts)

lemma hadithsOf_searchPage:
  "hadithsOf (searchPage d q opts lmt off) =
     (if trim q = [] then []
      else slice (sortByRelevance (collectResults d opts (toLowerCase (trim q)))) off (off + lmt))"
  by (simp add: searchPage_def hadithsOf_def searchHadiths_loaded searchHadiths_blank
      collectResults_page_opts Let_def jsSlice_page)

lemma totalOf_searchHadiths:
  "totalOf (searchHadiths (Some d) q opts) =
     (if trim q = [] then 0
      else length (collectResults d opts (toLowerCase (trim q))))"
  by (simp add: totalOf_def searchHadiths_loaded searchHadiths_blank Let_def sortByRelevance_def)

lemma sortByRelevance_descending:
  "sorted_wrt (\<lambda>a b. relevanceScore a \<ge> relevanceScore b) (sortByRelevance xs)"
proof -
  have "sorted (map (\<lambda>h. - relevanceScore h) (sortByRelevance xs))"
    by (simp add: sortByRelevance_def)
  then show ?thesis by (simp add: sorted_map)
qed

lemma sortByRelevance_stable:
  "filter (\<lambda>h. relevanceScore h = s) (sortByRelevance xs) = filter (\<lambda>h. relevanceScore h = s) xs"
proof -
  have "filter (\<lambda>h. - relevanceScore h = - s) (sort_key (\<lambda>h. - relevanceScore h) xs)
      = filter (\<lambda>h. - relevanceScore h = - s) xs"
    by (rule sort_key_stable)
  then show ?thesis by (simp add: sortByRelevance_def)
qed

lemma mset_sortByRelevance: "mset (sortByRelevance xs) = mset xs"
  by (simp add: sortByRelevance_def)

text \<open>
  Claim C7. For every loaded corpus, every query and every page size \<open>L \<ge> 1\<close>, the pages
  \<open>searchHadiths(q, {limit: L, offset: k * L})\<close> for \<open>k = 0 \<dots> \<lceil>total / L\<rceil> - 1\<close>, put one after
  the other, are exactly the list of \<open>searchHadiths(q, {limit: total, offset: 0})\<close>. That list
  is in descending order of relevance score; it holds every match once (it is a permutation
  of the matches in corpus order), and hits of equal score keep their corpus order.
\<close>

theorem searchHadiths_pagination_complete:
  assumes "1 \<le> L"
  shows "(let tot = totalOf (searchHadiths (Some d) q opts);
              whole = hadithsOf (searchPage d q opts tot 0)
          in concat (map (\<lambda>k. hadithsOf (searchPage d q opts L (k * L))) [0..<(tot + L - 1) div L])
               = whole
             \<and> sorted_wrt (\<lambda>a b. relevanceScore a \<ge> relevanceScore b) whole
             \<and> (trim q \<noteq> [] \<longrightarrow>
                  mset whole = mset (collectResults d opts (toLowerCase (trim q)))
                  \<and> (\<forall>s. filter (\<lambda>h. relevanceScore h = s) whole
                         = filter (\<lambda>h. relevanceScore h = s)
                             (collectResults d opts (toLowerCase (trim q))))))"
proof (cases "trim q = []")
  case True
  then show ?thesis by (simp add: hadithsOf_searchPage totalOf_searchHadiths)
next
  case False
  define ranked where "ranked = sortByRelevance (collectResults d opts (toLowerCase (trim q)))"
  have len: "length ranked = length (collectResults d opts (toLowerCase (trim q)))"
    by (simp add: ranked_def sortByRelevance_def)
  have whole: "slice ranked 0 (length ranked) = ranked" by (simp add: slice_def)
  have pages: "concat (map (\<lambda>k. slice ranked (k * L) (k * L + L)) [0..<(length ranked + L - 1) div L]) = ranked"
    using assms by (intro concat_pages_ceil) simp
  show ?thesis
    using False pages whole
    by (simp add: hadithsOf_searchPage totalOf_searchHadiths Let_def len [symmetric]
        ranked_def [symmetric])
       (simp add: ranked_def sortByRelevance_descending sortByRelevance_stable mset_sortByRelevance)
qed

theorem searchHadiths_pagination_complete_witness:
  "(1::nat) \<le> 2 \<and> trim ''ab'' \<noteq> []
   \<and> totalOf (searchHadiths (Some exampleData) ''ab'' noOptions) = 5
   \<and> concat (map (\<lambda>k. hadithsOf (searchPage exampleData ''ab'' noOptions 2 (k * 2))) [0..<3])
       = hadithsOf (searchPage exampleData ''ab'' noOptions 5 0)
   \<and> mset (hadithsOf (searchPage exampleData ''ab'' noOptions 5 0))
       = mset (collectResults exampleData noOptions (toLowerCase (trim ''ab'')))"
proof -
  have h: "(1::nat) \<le> 2" by simp
  have t: "trim ''ab'' \<noteq> []" by code_simp
  have tot: "totalOf (searchHadiths (Some exampleData) ''ab'' noOptions) = 5" by code_simp
  show ?thesis
    using searchHadiths_pagination_complete [OF h, of exampleData "''ab''" noOptions] t tot
    by (simp add: Let_def)
qed

section \<open>Exact and fuzzy matching\<close>

lemma subseq_concat_map:
  "(\<And>x. x \<in> set xs \<Longrightarrow> subseq (f x) (g x)) \<Longrightarrow> subseq (concat (map f xs)) (concat (map g xs))"
  by (induction xs) (auto intro: list_emb_append_mono)

lemma subseq_filter_mono:
  "(\<And>x. P x \<Longrightarrow> Q x) \<Longrightarrow> subseq (filter P xs) (filter Q xs)"
proof -
  assume pq: "\<And>x. P x \<Longrightarrow> Q x"
  have "filter P xs = filter P (filter Q xs)"
    using pq by (induction xs) auto
  moreover have "subseq (filter P (filter Q xs)) (filter Q xs)"
    by (rule subseq_filter_left)
  ultimately show ?thesis by simp
qed

lemma hadithMatches_exact_imp_fuzzy:
  "hadithMatches True t h \<Longrightarrow> hadithMatches False t h"
  by (simp add: hadithMatches_def Let_def includes_imp_fuzzySearch)

lemma searchFile_exact_subseq:
  assumes "e \<noteq> Some True"
  shows "subseq (searchFile (opts\<lparr>optExactMatch := Some True\<rparr>) t c f)
                (searchFile (opts\<lparr>optExactMatch := e\<rparr>) t c f)"
proof -
  have "subseq (filter (hadithMatches True t) (hadiths f))
               (filter (hadithMatches False t) (hadiths f))"
    by (rule subseq_filter_mono) (rule hadithMatches_exact_imp_fuzzy)
  then have "subseq (map (makeHit c f t) (filter (hadithMatches True t) (hadiths f)))
                    (map (makeHit c f t) (filter (hadithMatches False t) (hadiths f)))"
    by (rule subseq_map)
  then show ?thesis using assms by (simp add: searchFile_def)
qed

lemma searchCollection_exact_subseq:
  assumes "e \<noteq> Some True"
  shows "subseq (searchCollection (opts\<lparr>optExactMatch := Some True\<rparr>) t c)
                (searchCollection (opts\<lparr>optExactMatch := e\<rparr>) t c)"
proof -
  have "subseq (concat (map (searchFile (opts\<lparr>optExactMatch := Some True\<rparr>) t c) (files c)))
               (concat (map (searchFile (opts\<lparr>optExactMatch := e\<rparr>) t c) (files c)))"
    by (rule subseq_concat_map) (rule searchFile_exact_subseq [OF assms])
  then show ?thesis by (simp add: searchCollection_def)
qed

lemma collectResults_exact_subseq:
  assumes "e \<noteq> Some True"
  shows "subseq (collectResults d (opts\<lparr>optExactMatch := Some True\<rparr>) t)
                (collectResults d (opts\<lparr>optExactMatch := e\<rparr>) t)"
  unfolding collectResults_def
  by (rule subseq_concat_map) (rule searchCollection_exact_subseq [OF assms])

lemma set_slice_subset: "set (slice xs a b) \<subseteq> set xs"
  unfolding slice_def using set_take_subset set_drop_subset by fast

lemma exact_page_subset_fuzzy_all:
  assumes "e \<noteq> Some True"
  shows "set (hadithsOf (searchPage d q (opts\<lparr>optExactMatch := Some True\<rparr>) lmt off))
         \<subseteq> set (hadithsOf (searchPage d q (opts\<lparr>optExactMatch := e\<rparr>)
                   (totalOf (searchHadiths (Some d) q (opts\<lparr>optExactMatch := e\<rparr>))) 0))"
proof (cases "trim q = []")
  case True
  then show ?thesis by (simp add: hadithsOf_searchPage)
next
  case False
  let ?t = "toLowerCase (trim q)"
  let ?E = "collectResults d (opts\<lparr>optExactMatch := Some True\<rparr>) ?t"
  let ?F = "collectResults d (opts\<lparr>optExactMatch := e\<rparr>) ?t"
  have "set (slice (sortByRelevance ?E) off (off + lmt)) \<subseteq> set (sortByRelevance ?E)"
    by (rule set_slice_subset)
  also have "\<dots> = set ?E" by (simp add: sortByRelevance_def)
  also have "\<dots> \<subseteq> set ?F"
    using collectResults_exact_subseq [OF assms] by (auto elim: list_emb_set)
  also have "\<dots> = set (sortByRelevance ?F)" by (simp add: sortByRelevance_def)
  also have "\<dots> = set (slice (sortByRelevance ?F) 0 (0 + length ?F))"
    by (simp add: slice_def sortByRelevance_def)
  finally show ?thesis
    using False by (simp add: hadithsOf_searchPage totalOf_searchHadiths)
qed

lemma exact_total_le_fuzzy:
  assumes "e \<noteq> Some True"
  shows "totalOf (searchHadiths (Some d) q (opts\<lparr>optExactMatch := Some True\<rparr>))
         \<le> totalOf (searchHadiths (Some d) q (opts\<lparr>optExactMatch := e\<rparr>))"
  using collectResults_exact_subseq [OF assms, of d opts "toLowerCase (trim q)"]
  by (simp add: totalOf_searchHadiths list_emb_length)

text \<open>
  Claim C6. For every loaded corpus, every query and every fixed collection and file type
  filter, every hit of an exact search (\<open>exactMatch = true\<close>), on any page, is among the
  hits of the fuzzy search (\<open>exactMatch = false\<close>) with the same filters, and the exact
  search has no more matches than the fuzzy one.
\<close>

theorem exact_subset_fuzzy:
  "set (hadithsOf (searchPage d q (opts\<lparr>optExactMatch := Some True\<rparr>) lmt off))
     \<subseteq> set (hadithsOf (searchPage d q (opts\<lparr>optExactMatch := Some False\<rparr>)
               (totalOf (searchHadiths (Some d) q (opts\<lparr>optExactMatch := Some False\<rparr>))) 0))
   \<and> totalOf (searchHadiths (Some d) q (opts\<lparr>optExactMatch := Some True\<rparr>))
       \<le> totalOf (searchHadiths (Some d) q (opts\<lparr>optExactMatch := Some False\<rparr>))"
  using exact_page_subset_fuzzy_all [of "Some False"] exact_total_le_fuzzy [of "Some False"]
  by simp

theorem exact_subset_fuzzy_witness:
  "totalOf (searchHadiths (Some exampleData) ''ab cd'' (noOptions\<lparr>optExactMatch := Some True\<rparr>)) = 2
   \<and> totalOf (searchHadiths (Some exampleData) ''ab cd'' (noOptions\<lparr>optExactMatch := Some False\<rparr>)) = 7
   \<and> set (hadithsOf (searchPage exampleData ''ab cd'' (noOptions\<lparr>optExactMatch := Some True\<rparr>) 2 0))
       \<subseteq> set (hadithsOf (searchPage exampleData ''ab cd''
                 (noOptions\<lparr>optExactMatch := Some False\<rparr>) 7 0))"
proof -
  have e: "totalOf (searchHadiths (Some exampleData) ''ab cd''
             (noOptions\<lparr>optExactMatch := Some True\<rparr>)) = 2"
    by code_simp
  have f: "totalOf (searchHadiths (Some exampleData) ''ab cd''
             (noOptions\<lparr>optExactMatch := Some False\<rparr>)) = 7"
    by code_simp
  show ?thesis
    using exact_subset_fuzzy [of exampleData "''ab cd''" noOptions 2 0] e f by simp
qed

section \<open>Queries without a match\<close>

lemma collectResults_no_match:
  assumes "\<forall>c\<in>set (collections d). \<forall>f\<in>set (files c). \<forall>h\<in>set (hadiths f).
             \<not> hadithMatches (optExactMatch opts = Some True) t h"
  shows "collectResults d opts t = []"
proof -
  have nofile: "searchFile opts t c f = []" if "c \<in> set (collections d)" "f \<in> set (files c)" for c f
    using assms that by (auto simp: searchFile_def filter_empty_conv)
  have nocoll: "searchCollection opts t c = []" if "c \<in> set (collections d)" for c
    using nofile that by (auto simp: searchCollection_def)
  show ?thesis using nocoll by (auto simp: collectResults_def)
qed

text \<open>
  Claim C8, as the code has it. On a loaded corpus, a query that no record matches makes
  \<open>searchHadiths\<close> return normally, with an empty \<open>hadiths\<close> list and
  \<open>pagination.total = 0\<close>, for every limit and offset (and every other option).
  \<open>pagination.hasMore\<close> is \<open>offset + limit < 0\<close> when the query is not blank: it is \<open>false\<close>
  for every limit and offset whose sum is not negative, and \<open>true\<close> for the others. For a
  blank query it is \<open>false\<close>.
\<close>

theorem searchHadiths_no_match:
  assumes "\<forall>c\<in>set (collections d). \<forall>f\<in>set (files c). \<forall>h\<in>set (hadiths f).
             \<not> hadithMatches (optExactMatch opts = Some True) (toLowerCase (trim q)) h"
  shows "\<exists>r. searchHadiths (Some d) q opts = Inr r
             \<and> resultHadiths r = []
             \<and> total (resultPagination r) = 0
             \<and> hasMore (resultPagination r)
                 = (trim q \<noteq> []
                    \<and> (case optOffset opts of None \<Rightarrow> 0 | Some k \<Rightarrow> k)
                        + (case optLimit opts of None \<Rightarrow> 50 | Some l \<Rightarrow> l) < 0)
             \<and> (0 \<le> (case optOffset opts of None \<Rightarrow> 0 | Some k \<Rightarrow> k)
                       + (case optLimit opts of None \<Rightarrow> 50 | Some l \<Rightarrow> l)
                  \<longrightarrow> hasMore (resultPagination r) = False)"
proof (cases "trim q = []")
  case True
  then show ?thesis by (simp add: searchHadiths_blank)
next
  case False
  then show ?thesis
    using collectResults_no_match [OF assms]
    by (auto simp: searchHadiths_loaded Let_def sortByRelevance_def jsSlice_Nil)
qed

theorem searchHadiths_no_match_witness:
  "\<exists>r. searchHadiths (Some exampleData) ''qq'' (noOptions\<lparr>optLimit := Some 20\<rparr>) = Inr r
        \<and> resultHadiths r = []
        \<and> total (resultPagination r) = 0
        \<and> hasMore (resultPagination r) = False"
proof -
  have h: "\<forall>c\<in>set (collections exampleData). \<forall>f\<in>set (files c). \<forall>h\<in>set (hadiths f).
       \<not> hadithMatches (optExactMatch (noOptions\<lparr>optLimit := Some 20\<rparr>) = Some True)
            (toLowerCase (trim ''qq'')) h"
    by code_simp
  have s: "0 \<le> (case optOffset (noOptions\<lparr>optLimit := Some 20\<rparr>) of None \<Rightarrow> 0 | Some k \<Rightarrow> k)
               + (case optLimit (noOptions\<lparr>optLimit := Some 20\<rparr>) of None \<Rightarrow> 50 | Some l \<Rightarrow> l)"
    by (simp add: noOptions_def)
  show ?thesis using searchHadiths_no_match [OF h] s by blast
qed

text \<open>
  With a negative offset \<open>hasMore\<close> is \<open>true\<close> although nothing matches: for the query
  \<open>qq\<close>, which no hadith of the small corpus matches, the default limit 50 and the offset
  -100, the search returns no hadith, the total 0 and \<open>hasMore = true\<close>.
\<close>

theorem searchHadiths_no_match_counterexample:
  "collectResults exampleData (noOptions\<lparr>optOffset := Some (- 100)\<rparr>) (toLowerCase (trim ''qq'')) = []
   \<and> (case searchHadiths (Some exampleData) ''qq'' (noOptions\<lparr>optOffset := Some (- 100)\<rparr>) of
        Inl e \<Rightarrow> False
      | Inr r \<Rightarrow> resultHadiths r = [] \<and> total (resultPagination r) = 0
                 \<and> hasMore (resultPagination r) = True)"
  by code_simp

section \<open>The advanced filter pipeline\<close>

lemma baseSearchOptions_noOptions:
  "baseSearchOptions = noOptions\<lparr>optLimit := Some 1000, optOffset := Some 0\<rparr>"
  by (simp add: baseSearchOptions_def noOptions_def)

lemma baseSearch_searchPage:
  "searchHadiths (Some d) q baseSearchOptions = searchPage d q noOptions 1000 0"
  by (simp add: searchPage_def baseSearchOptions_noOptions)

lemma searchHadiths_loaded_Inr:
  "\<exists>r. searchHadiths (Some d) q opts = Inr r"
  by (cases "trim q = []") (simp_all add: searchHadiths_blank searchHadiths_loaded Let_def)

lemma advancedSearch_loaded:
  "advancedSearch (Some d) body =
     (let colls = (case advCollections body of None \<Rightarrow> [] | Some cs \<Rightarrow> cs);
          fileTypes = (case advFileTypes body of None \<Rightarrow> [] | Some fs \<Rightarrow> fs);
          lmt = (case advLimit body of None \<Rightarrow> 20 | Some l \<Rightarrow> l);
          off = (case advOffset body of None \<Rightarrow> 0 | Some k \<Rightarrow> k);
          candidates = hadithsOf (searchPage d (advQuery body) noOptions 1000 0);
          filteredHadiths =
            filter (passesFilters colls fileTypes (advMinLength body) (advMaxLength body)
                      (advHasFullDiacritics body)) candidates
      in Inr \<lparr> advHadiths = slice filteredHadiths off (off + lmt),
                advPagination =
                  \<lparr> total = length filteredHadiths, limit = int lmt, offset = int off,
                    hasMore = (off + lmt < length filteredHadiths) \<rparr>,
                advResultQuery = (advQuery body, body),
                advApplied =
                  \<lparr> appliedCollections = length colls,
                    appliedFileTypes = length fileTypes,
                    lengthFilter = (advMinLength body \<noteq> None \<or> advMaxLength body \<noteq> None),
                    diacriticsFilter = (advHasFullDiacritics body \<noteq> None) \<rparr>,
                resultsBeforeFiltering = length candidates,
                resultsAfterFiltering = length filteredHadiths \<rparr>)"
proof -
  obtain r where r: "searchHadiths (Some d) (advQuery body) baseSearchOptions = Inr r"
    using searchHadiths_loaded_Inr by blast
  then have "hadithsOf (searchPage d (advQuery body) noOptions 1000 0) = resultHadiths r"
    by (simp add: baseSearch_searchPage [symmetric] hadithsOf_def)
  then show ?thesis using r by (simp add: advancedSearch_def Let_def)
qed

text \<open>The first 1000 of the ranked list of all matches.\<close>

lemma candidates_take:
  "hadithsOf (searchPage d q noOptions 1000 0)
     = take 1000 (hadithsOf (searchPage d q noOptions (totalOf (searchHadiths (Some d) q noOptions)) 0))"
  by (simp add: hadithsOf_searchPage totalOf_searchHadiths slice_def sortByRelevance_def)

lemma subseq_slice: "subseq (slice xs a b) xs"
proof -
  have "sublist (take (b - a) (drop a xs)) (drop a xs)" by (rule sublist_take)
  moreover have "sublist (drop a xs) xs" by (rule sublist_drop)
  ultimately have "sublist (slice xs a b) xs"
    unfolding slice_def using sublist_order.order_trans by blast
  then show ?thesis by (rule sublist_imp_subseq)
qed

lemma subseq_slice_filter: "subseq (slice (filter P xs) a b) xs"
proof -
  have "subseq (slice (filter P xs) a b) (filter P xs)" by (rule subseq_slice)
  moreover have "subseq (filter P xs) xs" by (rule subseq_filter_left)
  ultimately show ?thesis using subseq_order.order_trans by blast
qed

lemma passesFilters_iff:
  "passesFilters colls fts mn mx dia h =
     ((colls = [] \<or> hitCollectionId h \<in> set colls)
      \<and> (fts = [] \<or> hitFileType h \<in> set fts)
      \<and> (case mn of None \<Rightarrow> True | Some m \<Rightarrow> m \<le> textLength h)
      \<and> (case mx of None \<Rightarrow> True | Some m \<Rightarrow> textLength h \<le> m)
      \<and> (case dia of None \<Rightarrow> True | Some b \<Rightarrow> hasFullDiacritics h = b))"
  by (auto simp: passesFilters_def split: option.splits)

lemma passesFilters_unrestricted: "passesFilters [] [] None None None h"
  by (simp add: passesFilters_def)

lemma advancedSearch_unfiltered_page:
  "advHadithsOf (advancedSearch (Some d) (unfilteredBody q lmt off))
     = slice (hadithsOf (searchPage d q noOptions 1000 0)) off (off + lmt)"
  by (simp add: advancedSearch_loaded advHadithsOf_def unfilteredBody_def Let_def
      passesFilters_unrestricted)

lemma advancedSearch_unfiltered_total:
  "advTotalOf (advancedSearch (Some d) (unfilteredBody q lmt off))
     = min 1000 (totalOf (searchHadiths (Some d) q noOptions))"
  by (simp add: advancedSearch_loaded advTotalOf_def unfilteredBody_def Let_def
      passesFilters_unrestricted hadithsOf_searchPage totalOf_searchHadiths slice_def
      sortByRelevance_def min.commute)

lemma searchPage_small_total:
  assumes "totalOf (searchHadiths (Some d) q noOptions) \<le> 1000"
  shows "slice (hadithsOf (searchPage d q noOptions 1000 0)) off (off + lmt)
           = hadithsOf (searchPage d q noOptions lmt off)"
proof (cases "trim q = []")
  case True
  then show ?thesis by (simp add: hadithsOf_searchPage slice_def)
next
  case False
  then have "length (sortByRelevance (collectResults d noOptions (toLowerCase (trim q)))) \<le> 1000"
    using assms by (simp add: totalOf_searchHadiths sortByRelevance_def)
  then show ?thesis using False by (simp add: hadithsOf_searchPage slice_def)
qed

text \<open>The large corpus: every hadith matches the query \<open>a\<close>.\<close>

lemma largeHadith_matches: "hadithMatches False ''a'' (largeHadith k)"
proof -
  have "fuzzySearch (toLowerCase ''a'') ''a''" by code_simp
  then show ?thesis by (simp add: hadithMatches_def largeHadith_def mkHadith_def)
qed

lemma largeData_matches:
  "length (sortByRelevance (collectResults largeData noOptions (toLowerCase (trim ''a'')))) = 1001"
proof -
  have t: "toLowerCase (trim ''a'') = ''a''" by code_simp
  have "filter (hadithMatches False ''a'') (map largeHadith [0..<1001]) = map largeHadith [0..<1001]"
    by (simp add: filter_id_conv largeHadith_matches)
  then have "length (collectResults largeData noOptions ''a'') = 1001"
    by (simp add: collectResults_def searchCollection_def searchFile_def largeData_def
        noOptions_def truthy_def)
  then show ?thesis by (simp add: t sortByRelevance_def)
qed

lemma largeData_total: "totalOf (searchHadiths (Some largeData) ''a'' noOptions) = 1001"
proof -
  have t: "trim ''a'' \<noteq> []" by code_simp
  show ?thesis
    using t largeData_matches by (simp add: totalOf_searchHadiths sortByRelevance_def)
qed

text \<open>
  Claim C4. In every advanced search the list handed to the filter is the first 1000 results
  of the basic search (\<open>searchHadiths\<close> with \<open>limit: 1000, offset: 0\<close>), that is, the first
  1000 of the ranked list of all matches. So \<open>resultsBeforeFiltering\<close> is at most 1000, and
  whatever the filters and the page, every hadith returned is one of those first 1000, in
  their order: a match ranked below them is never returned.
\<close>

theorem advancedSearch_candidates_capped:
  "(let whole = hadithsOf (searchPage d (advQuery body) noOptions
                   (totalOf (searchHadiths (Some d) (advQuery body) noOptions)) 0);
        r = advancedSearch (Some d) body
    in hadithsOf (searchHadiths (Some d) (advQuery body) baseSearchOptions) = take 1000 whole
       \<and> beforeFilteringOf r = min 1000 (length whole)
       \<and> beforeFilteringOf r \<le> 1000
       \<and> advTotalOf r \<le> 1000
       \<and> subseq (advHadithsOf r) (take 1000 whole)
       \<and> set (advHadithsOf r) \<subseteq> set (take 1000 whole))"
proof -
  define whole where "whole = hadithsOf (searchPage d (advQuery body) noOptions
                   (totalOf (searchHadiths (Some d) (advQuery body) noOptions)) 0)"
  define P where "P = passesFilters (case advCollections body of None \<Rightarrow> [] | Some cs \<Rightarrow> cs)
     (case advFileTypes body of None \<Rightarrow> [] | Some fs \<Rightarrow> fs) (advMinLength body) (advMaxLength body)
                      (advHasFullDiacritics body)"
  define lmt where "lmt = (case advLimit body of None \<Rightarrow> 20 | Some l \<Rightarrow> l)"
  define off where "off = (case advOffset body of None \<Rightarrow> 0 | Some k \<Rightarrow> k)"
  have cand: "hadithsOf (searchPage d (advQuery body) noOptions 1000 0) = take 1000 whole"
    unfolding whole_def by (rule candidates_take)
  have hs: "advHadithsOf (advancedSearch (Some d) body) = slice (filter P (take 1000 whole)) off (off + lmt)"
    by (simp add: advancedSearch_loaded advHadithsOf_def Let_def cand P_def lmt_def off_def)
  have bf: "beforeFilteringOf (advancedSearch (Some d) body) = length (take 1000 whole)"
    by (simp add: advancedSearch_loaded beforeFilteringOf_def Let_def cand)
  have tt: "advTotalOf (advancedSearch (Some d) body) = length (filter P (take 1000 whole))"
    by (simp add: advancedSearch_loaded advTotalOf_def Let_def cand P_def)
  have "length (filter P (take 1000 whole)) \<le> length (take 1000 whole)"
    by (rule length_filter_le)
  then have tle: "advTotalOf (advancedSearch (Some d) body) \<le> 1000" using tt by simp
  have sub: "subseq (advHadithsOf (advancedSearch (Some d) body)) (take 1000 whole)"
    unfolding hs by (rule subseq_slice_filter)
  then have "set (advHadithsOf (advancedSearch (Some d) body)) \<subseteq> set (take 1000 whole)"
    by (auto elim: list_emb_set)
  then show ?thesis
    using cand bf tle sub
    by (simp add: Let_def whole_def [symmetric] baseSearch_searchPage min.commute)
qed

theorem advancedSearch_candidates_capped_witness:
  "totalOf (searchHadiths (Some largeData) ''a'' noOptions) = 1001
   \<and> beforeFilteringOf (advancedSearch (Some largeData) (unfilteredBody ''a'' 20 0)) = 1000"
proof -
  have t: "trim ''a'' \<noteq> []" by code_simp
  have q: "advQuery (unfilteredBody ''a'' 20 0) = ''a''" by (simp add: unfilteredBody_def)
  have "beforeFilteringOf (advancedSearch (Some largeData) (unfilteredBody ''a'' 20 0))
      = min 1000 (length (hadithsOf (searchPage largeData ''a'' noOptions
                   (totalOf (searchHadiths (Some largeData) ''a'' noOptions)) 0)))"
    using advancedSearch_candidates_capped [of largeData "unfilteredBody ''a'' 20 0"]
    by (simp add: Let_def q)
  also have "\<dots> = 1000"
    using t largeData_matches by (simp add: largeData_total hadithsOf_searchPage slice_def)
  finally show ?thesis using largeData_total by simp
qed

text \<open>
  Claim C5, as the code has it. With an empty \<open>collections\<close> array, an empty \<open>fileTypes\<close>
  array and no length or diacritics filter, the advanced search returns the page
  \<open>slice(offset, offset + limit)\<close> of the first 1000 results of the unfiltered search, in
  their order, and its total is the smaller of 1000 and the number of matches. When the query
  has at most 1000 matches this is the page the unfiltered search returns for the same limit
  and offset. The filters are a conjunction, an empty array restricts nothing, an absent
  bound or flag restricts nothing, and the hadiths returned are a subsequence of the list
  that was filtered.
\<close>

theorem advancedSearch_unfiltered:
  "advHadithsOf (advancedSearch (Some d) (unfilteredBody q lmt off))
     = slice (hadithsOf (searchPage d q noOptions 1000 0)) off (off + lmt)
   \<and> advTotalOf (advancedSearch (Some d) (unfilteredBody q lmt off))
       = min 1000 (totalOf (searchHadiths (Some d) q noOptions))
   \<and> (totalOf (searchHadiths (Some d) q noOptions) \<le> 1000 \<longrightarrow>
        advHadithsOf (advancedSearch (Some d) (unfilteredBody q lmt off))
          = hadithsOf (searchPage d q noOptions lmt off))
   \<and> passesFilters colls fts mn mx dia h =
       ((colls = [] \<or> hitCollectionId h \<in> set colls)
        \<and> (fts = [] \<or> hitFileType h \<in> set fts)
        \<and> (case mn of None \<Rightarrow> True | Some m \<Rightarrow> m \<le> textLength h)
        \<and> (case mx of None \<Rightarrow> True | Some m \<Rightarrow> textLength h \<le> m)
        \<and> (case dia of None \<Rightarrow> True | Some b \<Rightarrow> hasFullDiacritics h = b))
   \<and> subseq (advHadithsOf (advancedSearch (Some d) body))
        (hadithsOf (searchHadiths (Some d) (advQuery body) baseSearchOptions))"
proof -
  have "subseq (advHadithsOf (advancedSearch (Some d) body))
        (hadithsOf (searchHadiths (Some d) (advQuery body) baseSearchOptions))"
    by (simp add: advancedSearch_loaded advHadithsOf_def Let_def baseSearch_searchPage
        subseq_slice_filter)
  then show ?thesis
    using advancedSearch_unfiltered_page [of d q lmt off]
      advancedSearch_unfiltered_total [of d q lmt off]
      searchPage_small_total [of d q off lmt]
      passesFilters_iff [of colls fts mn mx dia h]
    by simp
qed

theorem advancedSearch_unfiltered_witness:
  "totalOf (searchHadiths (Some exampleData) ''ab'' noOptions) = 5
   \<and> advHadithsOf (advancedSearch (Some exampleData) (unfilteredBody ''ab'' 2 1))
       = hadithsOf (searchPage exampleData ''ab'' noOptions 2 1)
   \<and> map hadithId (advHadithsOf (advancedSearch (Some exampleData) (unfilteredBody ''ab'' 2 1)))
       = [''2'', ''1'']"
proof -
  have tot: "totalOf (searchHadiths (Some exampleData) ''ab'' noOptions) = 5" by code_simp
  have ids: "map hadithId (hadithsOf (searchPage exampleData ''ab'' noOptions 2 1)) = [''2'', ''1'']"
    by code_simp
  have "totalOf (searchHadiths (Some exampleData) ''ab'' noOptions) \<le> 1000 \<longrightarrow>
        advHadithsOf (advancedSearch (Some exampleData) (unfilteredBody ''ab'' 2 1))
          = hadithsOf (searchPage exampleData ''ab'' noOptions 2 1)"
    using advancedSearch_unfiltered [of exampleData "''ab''" 2 1] by blast
  then have "advHadithsOf (advancedSearch (Some exampleData) (unfilteredBody ''ab'' 2 1))
          = hadithsOf (searchPage exampleData ''ab'' noOptions 2 1)"
    using tot by simp
  then show ?thesis using tot ids by simp
qed

text \<open>
  With 1001 matches the advanced search without filters and the unfiltered search differ:
  at \<open>limit = 1\<close> and \<open>offset = 1000\<close> the search returns the last match and the advanced
  search returns nothing.
\<close>

theorem advancedSearch_unfiltered_counterexample:
  "advHadithsOf (advancedSearch (Some largeData) (unfilteredBody ''a'' 1 1000))
     \<noteq> hadithsOf (searchPage largeData ''a'' noOptions 1 1000)"
proof -
  have t: "trim ''a'' \<noteq> []" by code_simp
  define ranked where
    "ranked = sortByRelevance (collectResults largeData noOptions (toLowerCase (trim ''a'')))"
  have len: "length ranked = 1001" unfolding ranked_def by (rule largeData_matches)
  have "advHadithsOf (advancedSearch (Some largeData) (unfilteredBody ''a'' 1 1000))
          = slice (slice ranked 0 1000) 1000 1001"
    using t by (simp add: advancedSearch_unfiltered_page hadithsOf_searchPage ranked_def)
  then have adv: "advHadithsOf (advancedSearch (Some largeData) (unfilteredBody ''a'' 1 1000)) = []"
    by (simp add: slice_def)
  have "hadithsOf (searchPage largeData ''a'' noOptions 1 1000) = slice ranked 1000 1001"
    using t by (simp add: hadithsOf_searchPage ranked_def)
  then have "length (hadithsOf (searchPage largeData ''a'' noOptions 1 1000)) = 1"
    using len by (simp add: slice_def)
  then have "hadithsOf (searchPage largeData ''a'' noOptions 1 1000) \<noteq> []" by auto
  then show ?thesis using adv by simp
qed

section \<open>The loader\<close>

lemma loadCollectionFiles_unreadable:
  "list_ex (\<lambda>e. collectionFiles fs (filename e) = Some Unreadable) es \<Longrightarrow>
   loadCollectionFiles fs es colls tot = None"
  by (induction es arbitrary: colls tot) (auto split: option.splits file_content.splits)

lemma loadCollectionFiles_readable:
  "\<not> list_ex (\<lambda>e. collectionFiles fs (filename e) = Some Unreadable) es \<Longrightarrow>
   loadCollectionFiles fs es colls tot =
     Some (colls @ List.map_filter (shardOf fs) es,
           tot + sum_list (map hadithCount
                   (filter (\<lambda>e. collectionFiles fs (filename e) \<noteq> None) es)))"
proof (induction es arbitrary: colls tot)
  case Nil
  then show ?case by (simp add: List.map_filter_simps)
next
  case (Cons e es)
  then show ?case
    by (cases "collectionFiles fs (filename e)")
       (auto simp: List.map_filter_simps shardOf_def split: file_content.splits)
qed

lemma loadFromSplitFiles_cases:
  "loadFromSplitFiles fs ld =
     (case manifestFile fs of
        Some (Parsed mf) \<Rightarrow>
          if collectionsDirExists fs \<and> \<not> someUnreadable fs mf
          then (True, ld\<lparr> loaderData := Some \<lparr> collections = loadedShards fs mf \<rparr>,
                         stats := \<lparr> collectionsCount = length (loadedShards fs mf),
                                    hadithsCount = declaredTotal fs mf \<rparr> \<rparr>)
          else (False, ld)
      | _ \<Rightarrow> (False, ld))"
proof (cases "manifestFile fs")
  case None
  then show ?thesis by (simp add: loadFromSplitFiles_def)
next
  case (Some mc)
  show ?thesis
  proof (cases mc)
    case Unreadable
    with Some show ?thesis by (simp add: loadFromSplitFiles_def)
  next
    case (Parsed mf)
    show ?thesis
    proof (cases "someUnreadable fs mf")
      case True
      then have "loadCollectionFiles fs (manifestFiles mf) [] 0 = None"
        unfolding someUnreadable_def by (rule loadCollectionFiles_unreadable)
      with Some Parsed True show ?thesis by (simp add: loadFromSplitFiles_def)
    next
      case False
      then have "loadCollectionFiles fs (manifestFiles mf) [] 0
                   = Some (loadedShards fs mf, declaredTotal fs mf)"
        unfolding someUnreadable_def
        by (simp add: loadCollectionFiles_readable loadedShards_def declaredTotal_def)
      with Some Parsed False show ?thesis by (simp add: loadFromSplitFiles_def)
    qed
  qed
qed

lemma foldl_add_length:
  "foldl (\<lambda>n f. n + length (hadiths f)) a fs = a + sum_list (map (\<lambda>f. length (hadiths f)) fs)"
  by (induction fs arbitrary: a) auto

lemma countHadiths_foldl:
  "foldl (\<lambda>totalHadiths c. foldl (\<lambda>n f. n + length (hadiths f)) totalHadiths (files c)) a colls
     = a + actualTotal colls"
  by (induction colls arbitrary: a) (auto simp: actualTotal_def foldl_add_length)

lemma countHadiths_actualTotal: "countHadiths colls = actualTotal colls"
  by (simp add: countHadiths_def countHadiths_foldl)

lemma collectionHadithCount_sum:
  "collectionHadithCount c = sum_list (map (\<lambda>f. length (hadiths f)) (files c))"
  by (simp add: collectionHadithCount_def foldl_add_length)

lemma loadData_cases:
  "loadData fs ld =
     (if fst (loadFromSplitFiles fs ld)
      then Inr (loaderData (snd (loadFromSplitFiles fs ld)),
                (snd (loadFromSplitFiles fs ld))\<lparr> loadingMethod := Some SplitFiles, isLoaded := True \<rparr>)
      else (case unifiedFile fs of
              Some (Parsed d) \<Rightarrow>
                Inr (Some d,
                     ld\<lparr> loaderData := Some d,
                         stats := \<lparr> collectionsCount = length (collections d),
                                    hadithsCount = countHadiths (collections d) \<rparr>,
                         loadingMethod := Some UnifiedFile, isLoaded := True \<rparr>)
            | _ \<Rightarrow> Inl LoadError))"
proof (cases "fst (loadFromSplitFiles fs ld)")
  case True
  then obtain ld1 where "loadFromSplitFiles fs ld = (True, ld1)"
    by (cases "loadFromSplitFiles fs ld") auto
  then show ?thesis by (simp add: loadData_def)
next
  case False
  then have same: "loadFromSplitFiles fs ld = (False, ld)"
    by (auto simp: loadFromSplitFiles_cases split: option.splits file_content.splits if_splits)
  show ?thesis
    using False
    by (simp add: loadData_def same loadFromUnifiedFile_def
        split: option.splits file_content.splits)
qed

text \<open>What the splitter leaves in the file system, and what the loader makes of it.\<close>

lemma foldl_write_other:
  "name \<notin> (\<lambda>c. collectionId c @ ''.json'') ` set cs \<Longrightarrow>
   collectionFiles (foldl writeCollectionFile fs cs) name = collectionFiles fs name"
  by (induction cs arbitrary: fs) (auto simp: writeCollectionFile_def)

lemma foldl_write_fields:
  "collectionsDirExists (foldl writeCollectionFile fs cs) = collectionsDirExists fs
   \<and> manifestFile (foldl writeCollectionFile fs cs) = manifestFile fs
   \<and> unifiedFile (foldl writeCollectionFile fs cs) = unifiedFile fs"
  by (induction cs arbitrary: fs) (auto simp: writeCollectionFile_def)

lemma foldl_write_member:
  "distinct (map collectionId cs) \<Longrightarrow> c \<in> set cs \<Longrightarrow>
   collectionFiles (foldl writeCollectionFile fs cs) (collectionId c @ ''.json'')
     = Some (Parsed \<lparr> wrappedCollection = c \<rparr>)"
proof (induction cs arbitrary: fs)
  case Nil
  then show ?case by simp
next
  case (Cons x xs)
  show ?case
  proof (cases "c \<in> set xs")
    case True
    with Cons show ?thesis by simp
  next
    case False
    with Cons.prems have cx: "c = x" by simp
    have "collectionId x @ ''.json'' \<notin> (\<lambda>c. collectionId c @ ''.json'') ` set xs"
      using Cons.prems(1) by auto
    then show ?thesis
      using cx by (simp add: foldl_write_other) (simp add: writeCollectionFile_def)
  qed
qed

lemma splitData_shardOf:
  assumes "distinct (map collectionId (collections d))" "c \<in> set (collections d)"
  shows "shardOf (splitData d fs) (manifestEntryOf c) = Some c"
  using foldl_write_member [OF assms, of "fs\<lparr> collectionsDirExists := True \<rparr>"]
  by (simp add: splitData_def shardOf_def manifestEntryOf_def Let_def)

lemma splitData_manifest:
  "manifestFile (splitData d fs)
     = Some (Parsed \<lparr> totalCollections = length (collections d),
                      manifestFiles = map manifestEntryOf (collections d) \<rparr>)
   \<and> collectionsDirExists (splitData d fs)"
  by (simp add: splitData_def Let_def foldl_write_fields)

lemma map_filter_all_Some:
  "(\<And>x. x \<in> set xs \<Longrightarrow> f (g x) = Some x) \<Longrightarrow> List.map_filter f (map g xs) = xs"
  by (induction xs) (auto simp: List.map_filter_simps)

lemma shardOf_Some_exists:
  "shardOf fs e = Some c \<Longrightarrow>
   collectionFiles fs (filename e) \<noteq> None \<and> collectionFiles fs (filename e) \<noteq> Some Unreadable"
  by (auto simp: shardOf_def split: option.splits file_content.splits)

lemma splitData_loads:
  assumes "distinct (map collectionId (collections d))"
  shows "loadFromSplitFiles (splitData d fs) ld
           = (True, ld\<lparr> loaderData := Some \<lparr> collections = collections d \<rparr>,
                         stats := \<lparr> collectionsCount = length (collections d),
                                    hadithsCount = actualTotal (collections d) \<rparr> \<rparr>)"
proof -
  let ?fs = "splitData d fs"
  let ?mf = "\<lparr> totalCollections = length (collections d),
                manifestFiles = map manifestEntryOf (collections d) \<rparr>"
  have sh: "shardOf ?fs (manifestEntryOf c) = Some c" if "c \<in> set (collections d)" for c
    using splitData_shardOf [OF assms that] .
  have ex: "collectionFiles ?fs (filename (manifestEntryOf c)) \<noteq> None
            \<and> collectionFiles ?fs (filename (manifestEntryOf c)) \<noteq> Some Unreadable"
    if "c \<in> set (collections d)" for c
    using shardOf_Some_exists [OF sh [OF that]] .
  have nounread: "\<not> someUnreadable ?fs ?mf"
    using ex by (auto simp: someUnreadable_def list_ex_iff)
  have shards: "loadedShards ?fs ?mf = collections d"
    using sh by (simp add: loadedShards_def map_filter_all_Some)
  have "filter (\<lambda>e. collectionFiles ?fs (filename e) \<noteq> None) (map manifestEntryOf (collections d))
          = map manifestEntryOf (collections d)"
    using ex by (auto simp: filter_id_conv)
  then have "declaredTotal ?fs ?mf = sum_list (map (hadithCount \<circ> manifestEntryOf) (collections d))"
    by (simp add: declaredTotal_def)
  also have "\<dots> = actualTotal (collections d)"
    by (simp add: actualTotal_def manifestEntryOf_def collectionHadithCount_sum comp_def)
  finally have tot: "declaredTotal ?fs ?mf = actualTotal (collections d)" .
  show ?thesis
    using splitData_manifest [of d fs] nounread shards tot
    by (simp add: loadFromSplitFiles_cases)
qed

lemma consistent_declaredTotal:
  "manifestConsistent fs mf \<Longrightarrow> \<not> someUnreadable fs mf \<Longrightarrow>
   declaredTotal fs mf = actualTotal (loadedShards fs mf)"
proof -
  have "list_all (\<lambda>e. case shardOf fs e of None \<Rightarrow> True | Some c \<Rightarrow> hadithCount e = actualTotal [c]) es
        \<Longrightarrow> \<not> list_ex (\<lambda>e. collectionFiles fs (filename e) = Some Unreadable) es
        \<Longrightarrow> sum_list (map hadithCount (filter (\<lambda>e. collectionFiles fs (filename e) \<noteq> None) es))
            = actualTotal (List.map_filter (shardOf fs) es)" for es
  proof (induction es)
    case Nil
    then show ?case by (simp add: actualTotal_def List.map_filter_simps)
  next
    case (Cons e es)
    then show ?case
      by (cases "collectionFiles fs (filename e)")
         (auto simp: List.map_filter_simps shardOf_def actualTotal_def split: file_content.splits)
  qed
  then show "manifestConsistent fs mf \<Longrightarrow> \<not> someUnreadable fs mf \<Longrightarrow>
   declaredTotal fs mf = actualTotal (loadedShards fs mf)"
    by (simp add: manifestConsistent_def someUnreadable_def declaredTotal_def loadedShards_def)
qed

lemma loadData_unifiedOnly:
  "loadData (unifiedOnly d) ld
     = Inr (Some d, ld\<lparr> loaderData := Some d,
                       stats := \<lparr> collectionsCount = length (collections d),
                                  hadithsCount = actualTotal (collections d) \<rparr>,
                       loadingMethod := Some UnifiedFile, isLoaded := True \<rparr>)"
  by (simp add: loadData_cases loadFromSplitFiles_cases unifiedOnly_def countHadiths_actualTotal)

text \<open>
  Claim C1, as the code has it. \<open>loadFromSplitFiles\<close> succeeds exactly when the collections
  directory and the manifest exist, the manifest parses, and no listed file that exists is
  unreadable or unparsable. When it fails the loader is left as it was and \<open>loadData\<close> falls
  back to the unified file (and fails when that does not load either). When it succeeds, the
  corpus is made of the collections of the listed files that exist, in manifest order: a
  listed file that is missing is skipped, and the declared \<open>hadithCount\<close> is added up without
  being compared with the content of the file.
\<close>

theorem loadFromSplitFiles_outcome:
  "fst (loadFromSplitFiles fs ld)
     = (collectionsDirExists fs
        \<and> (\<exists>mf. manifestFile fs = Some (Parsed mf) \<and> \<not> someUnreadable fs mf))
   \<and> (\<not> fst (loadFromSplitFiles fs ld) \<longrightarrow>
        snd (loadFromSplitFiles fs ld) = ld
        \<and> loadData fs ld =
            (case loadFromUnifiedFile fs ld of
               (True, ld2) \<Rightarrow>
                 Inr (loaderData ld2, ld2\<lparr> loadingMethod := Some UnifiedFile, isLoaded := True \<rparr>)
             | (False, ld2) \<Rightarrow> Inl LoadError))
   \<and> (fst (loadFromSplitFiles fs ld) \<and> manifestFile fs = Some (Parsed mf) \<longrightarrow>
        loaderData (snd (loadFromSplitFiles fs ld)) = Some \<lparr> collections = loadedShards fs mf \<rparr>
        \<and> collectionsCount (stats (snd (loadFromSplitFiles fs ld))) = length (loadedShards fs mf)
        \<and> hadithsCount (stats (snd (loadFromSplitFiles fs ld))) = declaredTotal fs mf)"
proof -
  have a: "fst (loadFromSplitFiles fs ld)
     = (collectionsDirExists fs
        \<and> (\<exists>mf. manifestFile fs = Some (Parsed mf) \<and> \<not> someUnreadable fs mf))"
    by (auto simp: loadFromSplitFiles_cases split: option.splits file_content.splits)
  have b: "snd (loadFromSplitFiles fs ld) = ld" if "\<not> fst (loadFromSplitFiles fs ld)"
    using that
    by (auto simp: loadFromSplitFiles_cases split: option.splits file_content.splits if_splits)
  have c: "loadData fs ld =
            (case loadFromUnifiedFile fs ld of
               (True, ld2) \<Rightarrow>
                 Inr (loaderData ld2, ld2\<lparr> loadingMethod := Some UnifiedFile, isLoaded := True \<rparr>)
             | (False, ld2) \<Rightarrow> Inl LoadError)" if "\<not> fst (loadFromSplitFiles fs ld)"
    using that
    by (simp add: loadData_cases loadFromUnifiedFile_def split: option.splits file_content.splits)
  have d: "loaderData (snd (loadFromSplitFiles fs ld)) = Some \<lparr> collections = loadedShards fs mf \<rparr>
        \<and> collectionsCount (stats (snd (loadFromSplitFiles fs ld))) = length (loadedShards fs mf)
        \<and> hadithsCount (stats (snd (loadFromSplitFiles fs ld))) = declaredTotal fs mf"
    if "fst (loadFromSplitFiles fs ld)" "manifestFile fs = Some (Parsed mf)"
    using that by (auto simp: loadFromSplitFiles_cases split: if_splits)
  show ?thesis using a b c d by blast
qed

theorem loadFromSplitFiles_outcome_witness:
  "\<not> fst (loadFromSplitFiles fsUnreadable newLoader)
   \<and> (\<exists>ld. loadData fsUnreadable newLoader = Inr (Some exampleData, ld)
           \<and> loadingMethod ld = Some UnifiedFile)
   \<and> fst (loadFromSplitFiles fsMiscount newLoader)
   \<and> loaderData (snd (loadFromSplitFiles fsMiscount newLoader))
       = Some \<lparr> collections = [collectionA, collectionB] \<rparr>"
proof -
  have u: "\<not> fst (loadFromSplitFiles fsUnreadable newLoader)" by code_simp
  have m: "manifestFile fsMiscount = Some (Parsed (exampleManifest 9))"
    by (simp add: fsMiscount_def)
  have s: "fst (loadFromSplitFiles fsMiscount newLoader)" by code_simp
  have l: "loadedShards fsMiscount (exampleManifest 9) = [collectionA, collectionB]" by code_simp
  have f: "loadFromUnifiedFile fsUnreadable newLoader
             = (True, newLoader\<lparr> loaderData := Some exampleData,
                   stats := \<lparr> collectionsCount = 2, hadithsCount = 8 \<rparr> \<rparr>)"
    by code_simp
  note inst = loadFromSplitFiles_outcome [of fsUnreadable newLoader]
    loadFromSplitFiles_outcome [of fsMiscount newLoader "exampleManifest 9"]
  have "loadData fsUnreadable newLoader =
            (case loadFromUnifiedFile fsUnreadable newLoader of
               (True, ld2) \<Rightarrow>
                 Inr (loaderData ld2, ld2\<lparr> loadingMethod := Some UnifiedFile, isLoaded := True \<rparr>)
             | (False, ld2) \<Rightarrow> Inl LoadError)"
    using inst(1) u by blast
  then have 1: "\<exists>ld. loadData fsUnreadable newLoader = Inr (Some exampleData, ld)
           \<and> loadingMethod ld = Some UnifiedFile"
    by (simp add: f)
  have 2: "loaderData (snd (loadFromSplitFiles fsMiscount newLoader))
       = Some \<lparr> collections = [collectionA, collectionB] \<rparr>"
    using inst(2) s m l by simp
  show ?thesis using u 1 s 2 by blast
qed

text \<open>
  A listed file that is missing does not make the split load fail: with \<open>b.json\<close> listed
  and absent the load succeeds and serves the corpus of \<open>a.json\<close> alone, although the unified
  file is there. A declared count that differs from the content does not make it fail
  either.
\<close>

theorem loadFromSplitFiles_counterexample:
  "manifestFile fsMissing = Some (Parsed (exampleManifest 6))
   \<and> map filename (manifestFiles (exampleManifest 6)) = [''a.json'', ''b.json'']
   \<and> collectionFiles fsMissing ''b.json'' = None
   \<and> fst (loadFromSplitFiles fsMissing newLoader)
   \<and> (case loadData fsMissing newLoader of
        Inl e \<Rightarrow> False
      | Inr (dat, ld) \<Rightarrow> dat = Some \<lparr> collections = [collectionA] \<rparr>
                          \<and> loadingMethod ld = Some SplitFiles)
   \<and> hadithCount (hd (manifestFiles (exampleManifest 9))) = 9
   \<and> actualTotal [collectionA] = 6
   \<and> fst (loadFromSplitFiles fsMiscount newLoader)"
  by code_simp

text \<open>
  Claim C2, as the code has it. After a load from the unified file, \<open>stats.hadithsCount\<close> is
  the sum over all collections and files of the actual number of hadiths. After a load from
  split files it is the sum of the counts the manifest declares for the files that were
  loaded, which is the actual sum whenever every declared count is the actual count of its
  file. For the files and the manifest that the splitter writes from a unified dataset with
  unique collection identifiers, both strategies load the same corpus and report the same
  total.
\<close>

theorem loadData_hadithsCount:
  "(loadData fs ld = Inr (dat, ld') \<and> loadingMethod ld' = Some UnifiedFile \<longrightarrow>
      (\<exists>d. dat = Some d \<and> hadithsCount (stats ld') = actualTotal (collections d)))
   \<and> (loadData fs ld = Inr (dat, ld') \<and> loadingMethod ld' = Some SplitFiles
        \<and> manifestFile fs = Some (Parsed mf) \<longrightarrow>
      (\<exists>d. dat = Some d \<and> hadithsCount (stats ld') = declaredTotal fs mf
           \<and> (manifestConsistent fs mf \<longrightarrow>
                hadithsCount (stats ld') = actualTotal (collections d))))
   \<and> (distinct (map collectionId (collections d0)) \<longrightarrow>
        (\<exists>ldS ldU.
            loadData (splitData d0 fs0) ld = Inr (Some d0, ldS)
          \<and> loadingMethod ldS = Some SplitFiles
          \<and> loadData (unifiedOnly d0) ld = Inr (Some d0, ldU)
          \<and> loadingMethod ldU = Some UnifiedFile
          \<and> hadithsCount (stats ldS) = hadithsCount (stats ldU)
          \<and> hadithsCount (stats ldU) = actualTotal (collections d0)))"
proof -
  have u: "\<exists>d. dat = Some d \<and> hadithsCount (stats ld') = actualTotal (collections d)"
    if "loadData fs ld = Inr (dat, ld')" "loadingMethod ld' = Some UnifiedFile"
    using that
    by (auto simp: loadData_cases countHadiths_actualTotal
        split: if_splits option.splits file_content.splits)
  have s: "\<exists>d. dat = Some d \<and> hadithsCount (stats ld') = declaredTotal fs mf
           \<and> (manifestConsistent fs mf \<longrightarrow>
                hadithsCount (stats ld') = actualTotal (collections d))"
    if "loadData fs ld = Inr (dat, ld')" "loadingMethod ld' = Some SplitFiles"
       "manifestFile fs = Some (Parsed mf)"
  proof -
    have ok: "fst (loadFromSplitFiles fs ld)"
      using that(1,2)
      by (auto simp: loadData_cases split: if_splits option.splits file_content.splits)
    then have nu: "\<not> someUnreadable fs mf"
      using that(3) by (auto simp: loadFromSplitFiles_cases split: if_splits)
    have "dat = Some \<lparr> collections = loadedShards fs mf \<rparr>
          \<and> hadithsCount (stats ld') = declaredTotal fs mf"
      using that(1,3) ok nu by (auto simp: loadData_cases loadFromSplitFiles_cases)
    then show ?thesis using consistent_declaredTotal [OF _ nu] by auto
  qed
  have b: "\<exists>ldS ldU.
            loadData (splitData d0 fs0) ld = Inr (Some d0, ldS)
          \<and> loadingMethod ldS = Some SplitFiles
          \<and> loadData (unifiedOnly d0) ld = Inr (Some d0, ldU)
          \<and> loadingMethod ldU = Some UnifiedFile
          \<and> hadithsCount (stats ldS) = hadithsCount (stats ldU)
          \<and> hadithsCount (stats ldU) = actualTotal (collections d0)"
    if "distinct (map collectionId (collections d0))"
  proof -
    have 1: "loadData (splitData d0 fs0) ld
       = Inr (Some d0, ld\<lparr> loaderData := Some d0,
                         stats := \<lparr> collectionsCount = length (collections d0),
                                    hadithsCount = actualTotal (collections d0) \<rparr>,
                         loadingMethod := Some SplitFiles, isLoaded := True \<rparr>)"
      by (simp add: loadData_cases splitData_loads [OF that])
    have 2: "loadData (unifiedOnly d0) ld
       = Inr (Some d0, ld\<lparr> loaderData := Some d0,
                         stats := \<lparr> collectionsCount = length (collections d0),
                                    hadithsCount = actualTotal (collections d0) \<rparr>,
                         loadingMethod := Some UnifiedFile, isLoaded := True \<rparr>)"
      by (simp add: loadData_cases loadFromSplitFiles_cases unifiedOnly_def countHadiths_actualTotal)
    show ?thesis unfolding 1 2 by simp
  qed
  show ?thesis using u s b by blast
qed

theorem loadData_hadithsCount_witness:
  "(\<exists>ldS ldU.
       loadData (splitData exampleData emptyFileSystem) newLoader = Inr (Some exampleData, ldS)
     \<and> loadingMethod ldS = Some SplitFiles
     \<and> loadData (unifiedOnly exampleData) newLoader = Inr (Some exampleData, ldU)
     \<and> loadingMethod ldU = Some UnifiedFile
     \<and> hadithsCount (stats ldS) = hadithsCount (stats ldU)
     \<and> hadithsCount (stats ldU) = 8)
   \<and> manifestConsistent fsMissing (exampleManifest 6)
   \<and> (\<exists>ld. loadData fsMissing newLoader = Inr (Some \<lparr> collections = [collectionA] \<rparr>, ld)
          \<and> hadithsCount (stats ld) = actualTotal [collectionA])"
proof -
  have dist: "distinct (map collectionId (collections exampleData))" by code_simp
  have tot: "actualTotal (collections exampleData) = 8" by code_simp
  have a: "\<exists>ldS ldU.
       loadData (splitData exampleData emptyFileSystem) newLoader = Inr (Some exampleData, ldS)
     \<and> loadingMethod ldS = Some SplitFiles
     \<and> loadData (unifiedOnly exampleData) newLoader = Inr (Some exampleData, ldU)
     \<and> loadingMethod ldU = Some UnifiedFile
     \<and> hadithsCount (stats ldS) = hadithsCount (stats ldU)
     \<and> hadithsCount (stats ldU) = actualTotal (collections exampleData)"
    using loadData_hadithsCount [of _ newLoader _ _ _ exampleData emptyFileSystem] dist
    by blast
  have mc: "manifestConsistent fsMissing (exampleManifest 6)" by code_simp
  have mf: "manifestFile fsMissing = Some (Parsed (exampleManifest 6))"
    by (simp add: fsMissing_def)
  obtain ld where ld: "loadData fsMissing newLoader = Inr (Some \<lparr> collections = [collectionA] \<rparr>, ld)"
    and meth: "loadingMethod ld = Some SplitFiles"
  proof -
    have "case loadData fsMissing newLoader of
            Inl e \<Rightarrow> False
          | Inr (dat, ld) \<Rightarrow> dat = Some \<lparr> collections = [collectionA] \<rparr>
                              \<and> loadingMethod ld = Some SplitFiles"
      by code_simp
    then show ?thesis using that by (auto split: sum.splits prod.splits)
  qed
  have "\<exists>d. Some \<lparr> collections = [collectionA] \<rparr> = Some d
           \<and> hadithsCount (stats ld) = declaredTotal fsMissing (exampleManifest 6)
           \<and> (manifestConsistent fsMissing (exampleManifest 6) \<longrightarrow>
                hadithsCount (stats ld) = actualTotal (collections d))"
    using loadData_hadithsCount [of fsMissing newLoader "Some \<lparr> collections = [collectionA] \<rparr>" ld
        "exampleManifest 6"] ld meth mf
    by blast
  then have c: "hadithsCount (stats ld) = actualTotal [collectionA]"
    using mc by auto
  show ?thesis using a tot mc ld c by auto
qed

text \<open>
  With a manifest that declares 9 hadiths for a file of 6, the split load reports 11 hadiths
  for a corpus of 8, and the unified load of the same corpus reports 8.
\<close>

theorem loadData_hadithsCount_counterexample:
  "(case loadData fsMiscount newLoader of
      Inl e \<Rightarrow> False
    | Inr (dat, ld) \<Rightarrow> dat = Some exampleData \<and> loadingMethod ld = Some SplitFiles
                        \<and> hadithsCount (stats ld) = 11)
   \<and> actualTotal (collections exampleData) = 8
   \<and> (case loadData (unifiedOnly exampleData) newLoader of
        Inl e \<Rightarrow> False
      | Inr (dat, ld) \<Rightarrow> dat = Some exampleData \<and> loadingMethod ld = Some UnifiedFile
                          \<and> hadithsCount (stats ld) = 8)"
  by code_simp


section \<open>The collection index\<close>

lemma indexLoop_other:
  "cid \<notin> collectionId ` set cs \<Longrightarrow> indexLoop cs i idx cid = idx cid"
  by (induction cs arbitrary: i idx) auto

lemma indexLoop_dom:
  "dom (indexLoop cs i idx) = dom idx \<union> collectionId ` set cs"
  by (induction cs arbitrary: i idx) auto

lemma indexLoop_sound:
  "indexLoop cs i idx cid = Some r \<Longrightarrow>
   idx cid = Some r \<or> (i \<le> r \<and> r < i + length cs \<and> collectionId (cs ! (r - i)) = cid)"
proof (induction cs arbitrary: i idx)
  case Nil
  then show ?case by simp
next
  case (Cons c cs)
  from Cons.prems have "indexLoop cs (Suc i) (idx(collectionId c \<mapsto> i)) cid = Some r" by simp
  then have "(idx(collectionId c \<mapsto> i)) cid = Some r
      \<or> (Suc i \<le> r \<and> r < Suc i + length cs \<and> collectionId (cs ! (r - Suc i)) = cid)"
    by (rule Cons.IH)
  then show ?case
  proof
    assume "(idx(collectionId c \<mapsto> i)) cid = Some r"
    then show ?thesis by (auto split: if_splits)
  next
    assume a: "Suc i \<le> r \<and> r < Suc i + length cs \<and> collectionId (cs ! (r - Suc i)) = cid"
    then have "r - i = Suc (r - Suc i)" by linarith
    then show ?thesis using a by simp
  qed
qed

lemma indexLoop_distinct:
  "distinct (map collectionId cs) \<Longrightarrow> j < length cs \<Longrightarrow>
   indexLoop cs i idx (collectionId (cs ! j)) = Some (i + j)"
proof (induction cs arbitrary: i idx j)
  case Nil
  then show ?case by simp
next
  case (Cons c cs)
  show ?case
  proof (cases j)
    case 0
    have "collectionId c \<notin> collectionId ` set cs" using Cons.prems(1) by auto
    then show ?thesis using 0 by (simp add: indexLoop_other)
  next
    case (Suc k)
    then have "indexLoop cs (Suc i) (idx(collectionId c \<mapsto> i)) (collectionId (cs ! k))
                 = Some (Suc i + k)"
      using Cons.prems by (intro Cons.IH) auto
    then show ?thesis using Suc by simp
  qed
qed

lemma indexCollections_distinct:
  assumes "distinct (map collectionId colls)" "i < length colls"
  shows "indexCollections colls (collectionId (colls ! i)) = Some i"
  using indexLoop_distinct [OF assms, of 0 Map.empty] by (simp add: indexCollections_def)

lemma managerLoadData_success:
  "managerLoadData fs m = Inr m' \<Longrightarrow>
   \<exists>d ld. loadData fs (dataLoader m) = Inr (Some d, ld)
        \<and> m' = m\<lparr> dataLoader := ld, managerData := Some d,
                   collectionIndex := indexCollections (collections d), loaded := True \<rparr>"
  by (auto simp: managerLoadData_def buildCollectionIndex_def
      split: sum.splits prod.splits option.splits)

lemma indexLoop_last:
  "j < length cs \<Longrightarrow>
   (\<forall>k. j < k \<and> k < length cs \<longrightarrow> collectionId (cs ! k) \<noteq> collectionId (cs ! j)) \<Longrightarrow>
   indexLoop cs i idx (collectionId (cs ! j)) = Some (i + j)"
proof (induction cs arbitrary: i idx j)
  case Nil
  then show ?case by simp
next
  case (Cons c cs)
  show ?case
  proof (cases j)
    case 0
    have "collectionId c \<notin> collectionId ` set cs"
    proof
      assume "collectionId c \<in> collectionId ` set cs"
      then obtain k where k: "k < length cs" "collectionId (cs ! k) = collectionId c"
        by (auto simp: in_set_conv_nth)
      then have "0 < Suc k \<and> Suc k < length (c # cs)" by simp
      with Cons.prems(2) 0 have "collectionId ((c # cs) ! Suc k) \<noteq> collectionId ((c # cs) ! 0)"
        by blast
      with k show False by simp
    qed
    then show ?thesis using 0 by (simp add: indexLoop_other)
  next
    case (Suc n)
    have n: "n < length cs" using Cons.prems(1) Suc by simp
    have later: "\<forall>k. n < k \<and> k < length cs \<longrightarrow> collectionId (cs ! k) \<noteq> collectionId (cs ! n)"
    proof (intro allI impI)
      fix k assume "n < k \<and> k < length cs"
      then have "j < Suc k \<and> Suc k < length (c # cs)" using Suc by simp
      with Cons.prems(2) have "collectionId ((c # cs) ! Suc k) \<noteq> collectionId ((c # cs) ! j)"
        by blast
      then show "collectionId (cs ! k) \<noteq> collectionId (cs ! n)" using Suc by simp
    qed
    have "indexLoop cs (Suc i) (idx(collectionId c \<mapsto> i)) (collectionId (cs ! n)) = Some (Suc i + n)"
      using n later by (rule Cons.IH)
    then show ?thesis using Suc by simp
  qed
qed

lemma last_with_id:
  assumes "i < length cs"
  shows "\<exists>j. i \<le> j \<and> j < length cs \<and> collectionId (cs ! j) = collectionId (cs ! i)
            \<and> (\<forall>k. j < k \<and> k < length cs \<longrightarrow> collectionId (cs ! k) \<noteq> collectionId (cs ! i))"
proof -
  let ?S = "{j. j < length cs \<and> collectionId (cs ! j) = collectionId (cs ! i)}"
  have fin: "finite ?S" by simp
  have mem: "i \<in> ?S" using assms by simp
  then have ne: "?S \<noteq> {}" by blast
  let ?j = "Max ?S"
  have jin: "?j \<in> ?S" using fin ne by (rule Max_in)
  have ge: "i \<le> ?j" using fin mem by (rule Max_ge)
  have "collectionId (cs ! k) \<noteq> collectionId (cs ! i)" if "?j < k" "k < length cs" for k
  proof
    assume "collectionId (cs ! k) = collectionId (cs ! i)"
    then have "k \<in> ?S" using that(2) by simp
    then have "k \<le> ?j" using fin by (rule Max_ge [rotated])
    with that(1) show False by simp
  qed
  then show ?thesis using jin ge by blast
qed

lemma indexCollections_last:
  assumes "i < length cs"
  shows "\<exists>j. indexCollections cs (collectionId (cs ! i)) = Some j
            \<and> i \<le> j \<and> j < length cs \<and> collectionId (cs ! j) = collectionId (cs ! i)
            \<and> (\<forall>k. j < k \<and> k < length cs \<longrightarrow> collectionId (cs ! k) \<noteq> collectionId (cs ! i))"
proof -
  obtain j where j: "i \<le> j" "j < length cs" "collectionId (cs ! j) = collectionId (cs ! i)"
    and later: "\<forall>k. j < k \<and> k < length cs \<longrightarrow> collectionId (cs ! k) \<noteq> collectionId (cs ! i)"
    using last_with_id [OF assms] by blast
  have "\<forall>k. j < k \<and> k < length cs \<longrightarrow> collectionId (cs ! k) \<noteq> collectionId (cs ! j)"
    using later j(3) by simp
  then have "indexLoop cs 0 Map.empty (collectionId (cs ! j)) = Some (0 + j)"
    using j(2) by (intro indexLoop_last) auto
  then have "indexCollections cs (collectionId (cs ! i)) = Some j"
    using j(3) by (simp add: indexCollections_def)
  then show ?thesis using j later by blast
qed

text \<open>
  Claim C9, as the code has it. After every successful \<open>loadData\<close> of the manager the
  index holds exactly the identifiers of the collections of the corpus, whatever it held
  before, and every entry refers to a collection of the corpus with that identifier. For
  every collection \<open>C\<close> of the corpus, \<open>getCollection(C.collectionId)\<close> returns the reference
  to the last collection of the corpus that carries the identifier of \<open>C\<close>: to \<open>C\<close> itself
  when no later collection repeats its identifier, and so to every collection itself when
  the identifiers are unique within the corpus.
\<close>

theorem collection_index_identity:
  assumes "managerLoadData fs m = Inr m'"
  shows "\<exists>d. managerData m' = Some d \<and> loaded m'
           \<and> dom (collectionIndex m') = collectionId ` set (collections d)
           \<and> (\<forall>cid r. getCollection m' cid = Some r \<longrightarrow>
                  r < length (collections d) \<and> collectionId (collections d ! r) = cid)
           \<and> (\<forall>i < length (collections d).
                 \<exists>j. getCollection m' (collectionId (collections d ! i)) = Some j
                    \<and> collectionAt m' j = Some (collections d ! j)
                    \<and> i \<le> j \<and> j < length (collections d)
                    \<and> collectionId (collections d ! j) = collectionId (collections d ! i)
                    \<and> (\<forall>k. j < k \<and> k < length (collections d) \<longrightarrow>
                           collectionId (collections d ! k) \<noteq> collectionId (collections d ! i)))
           \<and> (\<forall>i < length (collections d).
                 (\<forall>k. i < k \<and> k < length (collections d) \<longrightarrow>
                        collectionId (collections d ! k) \<noteq> collectionId (collections d ! i))
                 \<longrightarrow> getCollection m' (collectionId (collections d ! i)) = Some i
                     \<and> collectionAt m' i = Some (collections d ! i))
           \<and> (distinct (map collectionId (collections d)) \<longrightarrow>
                (\<forall>i < length (collections d).
                    getCollection m' (collectionId (collections d ! i)) = Some i
                  \<and> collectionAt m' i = Some (collections d ! i)))"
proof -
  obtain d ld where m': "m' = m\<lparr> dataLoader := ld, managerData := Some d,
                   collectionIndex := indexCollections (collections d), loaded := True \<rparr>"
    using managerLoadData_success [OF assms] by blast
  have a: "dom (indexCollections (collections d)) = collectionId ` set (collections d)"
    by (simp add: indexCollections_def indexLoop_dom)
  have b: "r < length (collections d) \<and> collectionId (collections d ! r) = cid"
    if "indexCollections (collections d) cid = Some r" for cid r
    using indexLoop_sound [of "collections d" 0 Map.empty cid r] that
    by (simp add: indexCollections_def)
  have c: "\<exists>j. indexCollections (collections d) (collectionId (collections d ! i)) = Some j
            \<and> i \<le> j \<and> j < length (collections d)
            \<and> collectionId (collections d ! j) = collectionId (collections d ! i)
            \<and> (\<forall>k. j < k \<and> k < length (collections d) \<longrightarrow>
                   collectionId (collections d ! k) \<noteq> collectionId (collections d ! i))"
    if "i < length (collections d)" for i
    using that by (rule indexCollections_last)
  have e: "indexCollections (collections d) (collectionId (collections d ! i)) = Some i"
    if "i < length (collections d)"
       "\<forall>k. i < k \<and> k < length (collections d) \<longrightarrow>
              collectionId (collections d ! k) \<noteq> collectionId (collections d ! i)" for i
    using indexLoop_last [OF that, of 0 Map.empty] by (simp add: indexCollections_def)
  have f: "indexCollections (collections d) (collectionId (collections d ! i)) = Some i"
    if "distinct (map collectionId (collections d))" "i < length (collections d)" for i
    using that by (rule indexCollections_distinct)
  have c': "\<exists>j. indexCollections (collections d) (collectionId (collections d ! i)) = Some j
            \<and> (if j < length (collections d) then Some (collections d ! j) else None)
                = Some (collections d ! j)
            \<and> i \<le> j \<and> j < length (collections d)
            \<and> collectionId (collections d ! j) = collectionId (collections d ! i)
            \<and> (\<forall>k. j < k \<and> k < length (collections d) \<longrightarrow>
                   collectionId (collections d ! k) \<noteq> collectionId (collections d ! i))"
    if "i < length (collections d)" for i
    using c [OF that] by auto
  show ?thesis
    unfolding m' using a b c' e f
    by (simp add: getCollection_def collectionAt_def)
qed

theorem collection_index_identity_witness:
  "\<exists>m'. managerLoadData (unifiedOnly exampleData) newManager = Inr m'
        \<and> managerData m' = Some exampleData
        \<and> getCollection m' ''a'' = Some 0
        \<and> getCollection m' ''b'' = Some 1
        \<and> collectionAt m' 1 = Some collectionB
        \<and> dom (collectionIndex m') = {''a'', ''b''}"
proof -
  obtain m' where m': "managerLoadData (unifiedOnly exampleData) newManager = Inr m'"
    and dat: "managerData m' = Some exampleData"
    by (simp add: managerLoadData_def loadData_unifiedOnly buildCollectionIndex_def)
  have dist: "distinct (map collectionId (collections exampleData))" by code_simp
  have len: "length (collections exampleData) = 2" by code_simp
  have ids: "collectionId (collections exampleData ! 0) = ''a''"
    "collectionId (collections exampleData ! 1) = ''b''"
    "collections exampleData ! 1 = collectionB"
    "collectionId ` set (collections exampleData) = {''a'', ''b''}"
    by (simp_all add: exampleData_def collectionB_def)
  from collection_index_identity [OF m'] dat
  have dom: "dom (collectionIndex m') = collectionId ` set (collections exampleData)"
    and look: "\<forall>i < length (collections exampleData).
                    getCollection m' (collectionId (collections exampleData ! i)) = Some i
                  \<and> collectionAt m' i = Some (collections exampleData ! i)"
    using dist by auto
  have "(0::nat) < length (collections exampleData)" using len by simp
  with look have "getCollection m' (collectionId (collections exampleData ! 0)) = Some 0" by blast
  then have "getCollection m' ''a'' = Some 0" using ids(1) by simp
  moreover have "(1::nat) < length (collections exampleData)" using len by simp
  with look have "getCollection m' (collectionId (collections exampleData ! 1)) = Some 1
      \<and> collectionAt m' 1 = Some (collections exampleData ! 1)" by blast
  then have "getCollection m' ''b'' = Some 1 \<and> collectionAt m' 1 = Some collectionB"
    using ids(2,3) by simp
  ultimately show ?thesis using m' dat dom ids(4) by auto
qed

text \<open>
  With two collections of the identifier \<open>a\<close> the load succeeds, and \<open>getCollection\<close> at the
  identifier of the first collection returns the second one, a different object.
\<close>

theorem collection_index_identity_counterexample:
  "\<exists>m'. managerLoadData (unifiedOnly dupData) newManager = Inr m'
        \<and> managerData m' = Some dupData
        \<and> collectionId (collections dupData ! 0) = ''a''
        \<and> getCollection m' (collectionId (collections dupData ! 0)) = Some 1
        \<and> collectionAt m' 1 = Some (collections dupData ! 1)
        \<and> collections dupData ! 1 \<noteq> collections dupData ! 0"
proof -
  obtain m' where m': "managerLoadData (unifiedOnly dupData) newManager = Inr m'"
    and dat: "managerData m' = Some dupData"
    and idx: "collectionIndex m' = indexCollections (collections dupData)"
    by (simp add: managerLoadData_def loadData_unifiedOnly buildCollectionIndex_def)
  have "getCollection m' ''a'' = Some 1"
    by (simp add: getCollection_def idx indexCollections_def dupData_def)
  moreover have "collectionAt m' 1 = Some (collections dupData ! 1)"
    by (simp add: collectionAt_def dat dupData_def)
  moreover have "collectionId (collections dupData ! 0) = ''a''"
    "collections dupData ! 1 \<noteq> collections dupData ! 0"
    by (simp_all add: dupData_def)
  ultimately show ?thesis using m' dat by auto
qed

section \<open>The percentile ladder\<close>

lemma percentileIndex_exact: "percentileIndex p n = (p * n) div 100"
proof -
  have "(real p / 100) * real n = real (p * n) / real 100" by simp
  then have "\<lfloor>(real p / 100) * real n\<rfloor> = \<lfloor>real (p * n) / real 100\<rfloor>" by simp
  also have "\<dots> = int ((p * n) div 100)" by (rule floor_divide_of_nat_eq)
  finally show ?thesis by (simp add: percentileIndex_def)
qed

lemma percentileIndex_in_range:
  "p < 100 \<Longrightarrow> 0 < n \<Longrightarrow> percentileIndex p n < n"
proof -
  assume p: "p < 100" and n: "0 < n"
  have "p * n < 100 * n" using p n by simp
  then have "(p * n) div 100 < n" by (simp add: div_less_iff_less_mult mult.commute)
  then show ?thesis by (simp add: percentileIndex_exact)
qed

text \<open>
  Claim C10. For every non-empty list of text lengths in scope, the distribution reports,
  for each \<open>p\<close> of 10, 25, 50, 75, 90, 95 and 99, the element at index
  \<open>\<lfloor>p / 100 \<times> total\<rfloor>\<close> of the lengths sorted in ascending order, \<open>total\<close> being the number
  of lengths; that index is always within the array.
\<close>

theorem distribution_percentiles:
  assumes "allLengths \<noteq> []"
  shows "\<exists>dist. lengthDistribution allLengths = Some dist
           \<and> percentiles dist
               = map (\<lambda>p. (p, Some (sort allLengths ! ((p * length allLengths) div 100))))
                   [10, 25, 50, 75, 90, 95, 99]
           \<and> list_all (\<lambda>p. (p * length allLengths) div 100 < length allLengths)
                [10, 25, 50, 75, 90, 95, 99]
           \<and> sorted (sort allLengths) \<and> mset (sort allLengths) = mset allLengths"
proof -
  have n: "0 < length allLengths" using assms by simp
  have idx: "percentileIndex p (length allLengths) < length allLengths" if "p < 100" for p
    using that n by (rule percentileIndex_in_range)
  have el: "elementAt (sort allLengths) (percentileIndex p (length (sort allLengths)))
              = Some (sort allLengths ! ((p * length allLengths) div 100))" if "p < 100" for p
    using idx [OF that] by (simp add: elementAt_def percentileIndex_exact)
  have lt: "p < 100" if "p \<in> set percentileLadder" for p
    using that by (auto simp: percentileLadder_def)
  have "map (\<lambda>p. (p, elementAt (sort allLengths) (percentileIndex p (length (sort allLengths)))))
          percentileLadder
        = map (\<lambda>p. (p, Some (sort allLengths ! ((p * length allLengths) div 100))))
            percentileLadder"
    by (rule map_cong [OF refl]) (simp only: el [OF lt])
  then have "percentilesOf (sort allLengths)
          = map (\<lambda>p. (p, Some (sort allLengths ! ((p * length allLengths) div 100))))
              [10, 25, 50, 75, 90, 95, 99]"
    by (simp only: percentilesOf_def percentileLadder_def)
  moreover have "list_all (\<lambda>p. (p * length allLengths) div 100 < length allLengths)
                [10, 25, 50, 75, 90, 95, 99]"
    using idx [of 10] idx [of 25] idx [of 50] idx [of 75] idx [of 90] idx [of 95] idx [of 99]
    by (simp only: percentileIndex_exact list.pred_inject)
  ultimately show ?thesis
    using assms by (simp add: lengthDistribution_def Let_def)
qed

theorem distribution_percentiles_witness:
  "collectLengths (map Some (collections exampleData)) None = [5, 5, 2, 5, 5, 2, 2, 2]
   \<and> (\<exists>dist. distributionHandler exampleManager None None = Inr (Some dist)
          \<and> percentiles dist
              = [(10, Some 2), (25, Some 2), (50, Some 5), (75, Some 5), (90, Some 5),
                 (95, Some 5), (99, Some 5)])"
proof -
  have ls: "collectLengths (map Some (collections exampleData)) None = [5, 5, 2, 5, 5, 2, 2, 2]"
    by code_simp
  have ne: "[5, 5, 2, 5, 5, 2, 2, 2] \<noteq> ([] :: nat list)" by simp
  have sc: "scopedCollections exampleManager None = Inr (map Some (collections exampleData))"
    by (simp add: scopedCollections_def exampleManager_def truthy_def)
  have srt: "sort [5, 5, 2, 5, 5, 2, 2, 2] = [2, 2, 2, 2, 5, 5, 5, 5 :: nat]" by code_simp
  obtain dist where d: "lengthDistribution [5, 5, 2, 5, 5, 2, 2, 2] = Some dist"
    and p: "percentiles dist
               = map (\<lambda>p. (p, Some (sort [5, 5, 2, 5, 5, 2, 2, 2 :: nat]
                                      ! ((p * length [5, 5, 2, 5, 5, 2, 2, 2 :: nat]) div 100))))
                   [10, 25, 50, 75, 90, 95, 99]"
    using distribution_percentiles [OF ne] by blast
  have "percentiles dist
              = [(10, Some 2), (25, Some 2), (50, Some 5), (75, Some 5), (90, Some 5),
                 (95, Some 5), (99, Some 5)]"
    unfolding p srt by simp
  then show ?thesis using ls d sc by (simp add: distributionHandler_def)
qed

section \<open>The relevance score\<close>

lemma length_toLowerCase: "length (toLowerCase s) = length s"
  by (simp add: toLowerCase_def)

lemma toLowerChar_idem: "toLowerChar (toLowerChar c) = toLowerChar c"
proof -
  have n: "(of_char c :: nat) < 256" by (rule nat_of_char_less_256)
  show ?thesis
    using n by (auto simp: toLowerChar_def Let_def of_char_of)
qed

lemma toLowerCase_idem: "toLowerCase (toLowerCase s) = toLowerCase s"
  by (simp add: toLowerCase_def toLowerChar_idem)

lemma indexOf_bounds:
  "includesStr t w \<Longrightarrow> 0 \<le> indexOf t w \<and> indexOf t w + int (length w) \<le> int (length t)"
proof (induction t)
  case Nil
  then show ?case by simp
next
  case (Cons c cs)
  show ?case
  proof (cases "prefix w (c # cs)")
    case True
    then show ?thesis using prefix_length_le by fastforce
  next
    case False
    with Cons show ?thesis by (auto simp: Let_def)
  qed
qed

lemma foldl_score:
  "foldl (\<lambda>score word. if P word then score + 10 else score) a ws
     = a + 10 * real (length (filter P ws))"
  by (induction ws arbitrary: a) auto

lemma calculateRelevance_lowered:
  "calculateRelevance (toLowerCase txt) (toLowerCase q) =
     (if includesStr (toLowerCase txt) (toLowerCase q)
      then 100 - 50 * real_of_int (indexOf (toLowerCase txt) (toLowerCase q)) / real (length txt)
      else 10 * real (length (filter (includesStr (toLowerCase txt))
                                (splitWhitespace (toLowerCase q)))))"
  by (simp add: calculateRelevance_def Let_def toLowerCase_idem length_toLowerCase foldl_score)

lemma hit_fields:
  "hadithText (makeHit c f t h) = hadithText h
   \<and> relevanceScore (makeHit c f t h) = calculateRelevance (toLowerCase (hadithText h)) t"
  by (simp add: makeHit_def hadith.extend_def)

lemma collectResults_hit:
  assumes "x \<in> set (collectResults d opts t)"
  shows "relevanceScore x = calculateRelevance (toLowerCase (hadithText x)) t
         \<and> (if optExactMatch opts = Some True then includesStr (toLowerCase (hadithText x)) t
            else fuzzySearch (toLowerCase (hadithText x)) t)"
proof -
  from assms obtain c f h where "x = makeHit c f t h"
    and "hadithMatches (optExactMatch opts = Some True) t h"
    by (auto simp: collectResults_def searchCollection_def searchFile_def split: if_splits)
  then show ?thesis
    by (auto simp: hit_fields hadithMatches_def Let_def)
qed

lemma searchHadiths_result_hits:
  assumes "searchHadiths (Some d) q opts = Inr r" "h \<in> set (resultHadiths r)"
  shows "trim q \<noteq> [] \<and> h \<in> set (collectResults d opts (toLowerCase (trim q)))"
proof (cases "trim q = []")
  case True
  with assms show ?thesis by (auto simp: searchHadiths_blank)
next
  case False
  then have "resultHadiths r =
     jsSlice (sortByRelevance (collectResults d opts (toLowerCase (trim q))))
       (case optOffset opts of None \<Rightarrow> 0 | Some k \<Rightarrow> k)
       ((case optOffset opts of None \<Rightarrow> 0 | Some k \<Rightarrow> k)
        + (case optLimit opts of None \<Rightarrow> 50 | Some l \<Rightarrow> l))"
    using assms(1) by (auto simp: searchHadiths_loaded Let_def)
  then have "h \<in> set (sortByRelevance (collectResults d opts (toLowerCase (trim q))))"
    using assms(2) set_jsSlice_subset by fastforce
  then show ?thesis using False by (simp add: sortByRelevance_def)
qed

text \<open>
  Claim C3, as the code has it. For every record that \<open>searchHadiths\<close> of the manager
  returns (the search behind the routes), with \<open>t\<close> the trimmed, lower-cased query: when the
  lower-cased text contains \<open>t\<close>, the relevance score is \<open>100 - 50 \<times> i / n\<close>, where \<open>i\<close> is the
  index of the first occurrence of \<open>t\<close> and \<open>n\<close> the length of the text, a number above 50 and
  at most 100; otherwise it is 10 for each whitespace-separated piece of \<open>t\<close> that the text
  contains, at least 10.
\<close>

theorem searchHadiths_relevanceScore:
  assumes "searchHadiths (Some d) q opts = Inr r" and "h \<in> set (resultHadiths r)"
  shows "(let t = toLowerCase (trim q);
              txt = toLowerCase (hadithText h)
          in (includesStr txt t \<longrightarrow>
                relevanceScore h
                  = 100 - 50 * real_of_int (indexOf txt t) / real (length (hadithText h))
                \<and> 50 < relevanceScore h \<and> relevanceScore h \<le> 100)
           \<and> (\<not> includesStr txt t \<longrightarrow>
                relevanceScore h
                  = 10 * real (length (filter (includesStr txt) (splitWhitespace t)))
                \<and> 10 \<le> relevanceScore h))"
proof -
  define t where "t = toLowerCase (trim q)"
  define lowered where "lowered = toLowerCase (hadithText h)"
  have ne: "trim q \<noteq> []" and inres: "h \<in> set (collectResults d opts t)"
    using searchHadiths_result_hits [OF assms] by (simp_all add: t_def)
  have tne: "t \<noteq> []" using ne by (simp add: t_def toLowerCase_def)
  have score: "relevanceScore h = calculateRelevance lowered t"
    and matched: "if optExactMatch opts = Some True then includesStr lowered t else fuzzySearch lowered t"
    using collectResults_hit [OF inres] by (simp_all add: lowered_def)
  have form: "calculateRelevance lowered t =
     (if includesStr lowered t
      then 100 - 50 * real_of_int (indexOf lowered t) / real (length (hadithText h))
      else 10 * real (length (filter (includesStr lowered) (splitWhitespace t))))"
    unfolding lowered_def t_def by (rule calculateRelevance_lowered)
  have inc: "50 < relevanceScore h \<and> relevanceScore h \<le> 100" if i: "includesStr lowered t"
  proof -
    have b: "0 \<le> indexOf lowered t \<and> indexOf lowered t + int (length t) \<le> int (length lowered)"
      using i by (rule indexOf_bounds)
    have lt: "0 < length t" using tne by simp
    have len: "length lowered = length (hadithText h)" by (simp add: lowered_def length_toLowerCase)
    have i1: "indexOf lowered t < int (length (hadithText h))" using b lt len by linarith
    have "0 < int (length (hadithText h))" using i1 b by linarith
    then have npos: "0 < real (length (hadithText h))" by simp
    have "real_of_int (indexOf lowered t) / real (length (hadithText h)) < 1"
      using i1 npos by simp
    moreover have "0 \<le> real_of_int (indexOf lowered t) / real (length (hadithText h))"
      using b by simp
    ultimately show ?thesis using score form i by simp
  qed
  have fz: "10 \<le> relevanceScore h" if ni: "\<not> includesStr lowered t"
  proof -
    have "fuzzySearch lowered t" using matched ni by (simp split: if_splits)
    then have "filter (includesStr lowered) (splitWhitespace t) \<noteq> []"
      by (auto simp: fuzzySearch_def list_ex_iff filter_empty_conv)
    then have "1 \<le> length (filter (includesStr lowered) (splitWhitespace t))"
      by (simp add: Suc_le_eq)
    then have "1 \<le> real (length (filter (includesStr lowered) (splitWhitespace t)))" by simp
    then show ?thesis using score form ni by simp
  qed
  show ?thesis
    using score form inc fz by (simp add: Let_def t_def [symmetric] lowered_def [symmetric])
qed

theorem searchHadiths_relevanceScore_witness:
  "\<exists>r h. searchHadiths (Some exampleData) ''ab'' noOptions = Inr r
         \<and> h \<in> set (resultHadiths r)
         \<and> hadithText h = ''xx ab''
         \<and> relevanceScore h = 70"
proof -
  obtain r where r: "searchHadiths (Some exampleData) ''ab'' noOptions = Inr r"
    using searchHadiths_loaded_Inr by blast
  have "map hadithText (hadithsOf (searchHadiths (Some exampleData) ''ab'' noOptions))
          = [''Ab cd'', ''ab cd'', ''ab'', ''xx ab'', ''xx ab'']"
    by code_simp
  then have "map hadithText (resultHadiths r)
          = [''Ab cd'', ''ab cd'', ''ab'', ''xx ab'', ''xx ab'']"
    using r by (simp add: hadithsOf_def)
  then have "''xx ab'' \<in> set (map hadithText (resultHadiths r))" by simp
  then have "''xx ab'' \<in> hadithText ` set (resultHadiths r)" by (simp only: set_map)
  then obtain h where h: "h \<in> set (resultHadiths r)" and tx: "hadithText h = ''xx ab''"
    by auto
  have inc: "includesStr (toLowerCase ''xx ab'') (toLowerCase (trim ''ab''))" by code_simp
  have ix: "indexOf (toLowerCase ''xx ab'') (toLowerCase (trim ''ab'')) = 3" by code_simp
  have "relevanceScore h = 100 - 50 * real_of_int (indexOf (toLowerCase ''xx ab'')
            (toLowerCase (trim ''ab''))) / real (length ''xx ab'')"
    using searchHadiths_relevanceScore [OF r h] inc by (simp add: Let_def tx)
  then have "relevanceScore h = 70" unfolding ix by simp
  then show ?thesis using r h tx by blast
qed

lemma sqrt_4_100: "sqrt (4 / 100) = 1 / 5"
  by (rule real_sqrt_unique) (simp_all add: power2_eq_square)

lemma loaderCalculateRelevance_abcd: "loaderCalculateRelevance ''abcd'' ''b'' = 500"
proof -
  have m: "countMatches (toLowerCase ''b'') 0 (toLowerCase ''abcd'') = 1" by code_simp
  have w: "countWordMatches (toLowerCase ''b'') 0 None (toLowerCase ''abcd'') = 0" by code_simp
  have p: "\<not> prefix (toLowerCase ''b'') (toLowerCase ''abcd'')" by code_simp
  have s: "sqrt (real (length ''abcd'') / 100) = 1 / 5" using sqrt_4_100 by simp
  show ?thesis
    unfolding loaderCalculateRelevance_def Let_def m w s using p by simp
qed

text \<open>
  The score the search returns is not the formula of occurrences, prefix, whole words and
  length: for the text \<open>abcd\<close> and the query \<open>b\<close> the search returns 87.5, and that formula
  gives 100 / \<surd>(4 / 100) = 500.
\<close>

theorem searchHadiths_relevanceScore_counterexample:
  "map relevanceScore (hadithsOf (searchHadiths (Some tinyData) ''b'' noOptions)) = [175 / 2]
   \<and> map (\<lambda>h. loaderCalculateRelevance (hadithText h) (toLowerCase (trim ''b'')))
        (hadithsOf (searchHadiths (Some tinyData) ''b'' noOptions)) = [500]"
proof -
  have a: "map relevanceScore (hadithsOf (searchHadiths (Some tinyData) ''b'' noOptions)) = [175 / 2]"
    by code_simp
  have t: "map hadithText (hadithsOf (searchHadiths (Some tinyData) ''b'' noOptions)) = [''abcd'']"
    by code_simp
  have q: "toLowerCase (trim ''b'') = ''b''" by code_simp
  have "map (\<lambda>h. loaderCalculateRelevance (hadithText h) ''b'')
          (hadithsOf (searchHadiths (Some tinyData) ''b'' noOptions))
        = map (\<lambda>s. loaderCalculateRelevance s ''b'')
            (map hadithText (hadithsOf (searchHadiths (Some tinyData) ''b'' noOptions)))"
    by (simp add: comp_def)
  also have "\<dots> = [500]" unfolding t by (simp add: loaderCalculateRelevance_abcd)
  finally show ?thesis using a q by simp
qed

end
